theory Spec2Isabelle
  imports Main "HOL-Library.Word"
begin

unbundle bit_operations_syntax

section \<open>Data model\<close>

text \<open>
  The model follows \<^verbatim>\<open>src/src/filesys.cpp\<close> and \<^verbatim>\<open>src/filesys.h\<close>.
  The mapped image \<^verbatim>\<open>uint8_t* mFilesys_\<close> with its length \<^verbatim>\<open>filesys_size_\<close> is a
  store from byte addresses to bytes together with a size. \<^verbatim>\<open>uint8_t\<close>, \<^verbatim>\<open>uint16_t\<close>
  and \<^verbatim>\<open>uint32_t\<close> are words of that width, \<^verbatim>\<open>size_t\<close> is a natural number with the
  reduction modulo \<open>2 ^ 64\<close> written out where the source computes with it. A \<^verbatim>\<open>char\<close>
  is its byte and a \<^verbatim>\<open>std::string\<close> a list of bytes; \<open>str\<close> turns a literal into one.
  A thrown \<^verbatim>\<open>std::exception\<close> is the result \<open>Throw\<close>; a loop that may run forever
  returns \<open>None\<close> when it does. Text printed to standard output is not modelled.
  Member names lose the trailing underscore of the source.
\<close>

datatype 'a res = Throw | Ret 'a

type_synonym bytes = "8 word list"

definition str :: "string \<Rightarrow> bytes" where
  "str s = map of_char s"

record Fat32Info =
  Signature :: "8 word list"
  BytesPerSec :: "16 word"
  RootEntCnt :: "16 word"
  RootDirSector :: "32 word"
  FATSz16 :: "32 word"
  FATSz32 :: "32 word"
  FATSz :: "32 word"
  RsvdSecCnt :: "32 word"
  NumFats :: "32 word"
  SecPerClus :: "32 word"
  FirstDataSec :: "32 word"
  RootClus :: "32 word"
  FsInfo :: "32 word"
  TotSec :: "32 word"

record FileEntry =
  name :: bytes
  attr :: "8 word"
  lo :: "16 word"
  hi :: "16 word"
  wrtTime :: "16 word"
  wrtDate :: "16 word"
  size_fe :: "32 word"
  clus :: "32 word"
  entryLoc :: "32 word"
  openInfo :: "32 word"

record Filesys =
  mFilesys :: "nat \<Rightarrow> 8 word"
  filesys_size :: nat
  error :: bool
  cwd :: "32 word"
  location :: bytes
  finfo :: Fat32Info
  openTable :: "FileEntry list"

text \<open>The fields of \<^verbatim>\<open>struct tm\<close> that \<^verbatim>\<open>SetCurrentTime\<close> reads.\<close>

record tm =
  tm_sec :: int
  tm_min :: int
  tm_hour :: int
  tm_mday :: int
  tm_mon :: int
  tm_year :: int

definition FATMASK :: "32 word" where "FATMASK = 0x0FFFFFFF"
definition FATEND :: "32 word" where "FATEND = 0x0FFFFFF8"
definition DEALLOC :: "8 word" where "DEALLOC = 0xe5"

definition RDONLY :: "8 word" where "RDONLY = 1"
definition HIDDEN :: "8 word" where "HIDDEN = 2"
definition SYS :: "8 word" where "SYS = 4"
definition VOLID :: "8 word" where "VOLID = 8"
definition DIRECT :: "8 word" where "DIRECT = 16"
definition ARCHIVE :: "8 word" where "ARCHIVE = 32"
definition LONG :: "8 word" where "LONG = RDONLY OR HIDDEN OR SYS OR VOLID"

section \<open>Image I/O\<close>

text \<open>
  \<^verbatim>\<open>ReadValue(data, len, pos, width)\<close>: the guard is the source's
  \<^verbatim>\<open>width * len + pos >= filesys_size_\<close> in \<^verbatim>\<open>size_t\<close>; item \<open>i\<close> is assembled from
  \<open>width\<close> bytes, least significant first, each byte promoted to a 32-bit \<^verbatim>\<open>int\<close>,
  shifted and or-ed into the item of type \<^verbatim>\<open>T\<close>.
\<close>

definition out_of_range :: "Filesys \<Rightarrow> nat \<Rightarrow> nat \<Rightarrow> nat \<Rightarrow> bool" where
  "out_of_range fs len pos width \<longleftrightarrow> (width * len + pos) mod 2 ^ 64 \<ge> filesys_size fs"

definition ReadItem :: "(nat \<Rightarrow> 8 word) \<Rightarrow> nat \<Rightarrow> nat \<Rightarrow> 'a::len word" where
  "ReadItem m base width =
     fold (\<lambda>p d. d OR ucast (push_bit (8 * p) (ucast (m (base + p)) :: 32 word))) [0..<width] 0"

definition ReadValue :: "Filesys \<Rightarrow> nat \<Rightarrow> nat \<Rightarrow> nat \<Rightarrow> ('a::len word) list res" where
  "ReadValue fs len pos width =
     (if out_of_range fs len pos width then Throw
      else Ret (map (\<lambda>i. ReadItem (mFilesys fs) (pos + i * width) width) [0..<len]))"

text \<open>
  \<^verbatim>\<open>WriteValue(data, len, pos, width)\<close>, with \<open>len\<close> the length of \<open>data\<close> as at every
  call of the source: byte \<open>p\<close> of item \<open>i\<close> is the low byte of the item shifted
  right by \<open>8 * p\<close>.
\<close>

definition WriteItem :: "(nat \<Rightarrow> 8 word) \<Rightarrow> nat \<Rightarrow> nat \<Rightarrow> 'a::len word \<Rightarrow> (nat \<Rightarrow> 8 word)" where
  "WriteItem m base width tData =
     fold (\<lambda>p m'. m'(base + p := ucast (drop_bit (8 * p) tData AND 0xFF))) [0..<width] m"

definition WriteValue :: "Filesys \<Rightarrow> ('a::len word) list \<Rightarrow> nat \<Rightarrow> nat \<Rightarrow> Filesys res" where
  "WriteValue fs data pos width =
     (if out_of_range fs (length data) pos width then Throw
      else Ret (fs\<lparr>mFilesys :=
             fold (\<lambda>i m. WriteItem m (pos + i * width) width (data ! i)) [0..<length data] (mFilesys fs)\<rparr>))"

text \<open>The calls with \<open>len = 1\<close>: one item read into, or written from, a variable.\<close>

definition ReadValue1 :: "Filesys \<Rightarrow> nat \<Rightarrow> nat \<Rightarrow> ('a::len word) res" where
  "ReadValue1 fs pos width =
     (case ReadValue fs 1 pos width of Throw \<Rightarrow> Throw | Ret ds \<Rightarrow> Ret (hd ds))"

definition WriteValue1 :: "Filesys \<Rightarrow> 'a::len word \<Rightarrow> nat \<Rightarrow> nat \<Rightarrow> Filesys res" where
  "WriteValue1 fs v pos width = WriteValue fs [v] pos width"

section \<open>Directory entries in memory\<close>

text \<open>
  The constructor \<^verbatim>\<open>FileEntry(n, a, l, h, s, el)\<close>. \<^verbatim>\<open>name(n)\<close> builds a
  \<^verbatim>\<open>std::string\<close> from a C string, so the name ends before the first NUL byte.
\<close>

definition c_string :: "bytes \<Rightarrow> bytes" where
  \<comment> \<open>the \<^verbatim>\<open>std::string\<close> built from a NUL-terminated buffer\<close>
  "c_string buf = takeWhile (\<lambda>c. c \<noteq> 0) buf"

definition mk_clus :: "16 word \<Rightarrow> 16 word \<Rightarrow> 32 word" where
  "mk_clus l h = ucast l OR push_bit 16 (ucast h)"

definition FileEntry_new ::
  "bytes \<Rightarrow> 8 word \<Rightarrow> 16 word \<Rightarrow> 16 word \<Rightarrow> 32 word \<Rightarrow> 32 word \<Rightarrow> FileEntry" where
  "FileEntry_new n a l h s el =
     \<lparr>name = c_string n, attr = a, lo = l, hi = h, wrtTime = 0,
      wrtDate = 0, size_fe = s, clus = mk_clus l h, entryLoc = el, openInfo = 0\<rparr>"

text \<open>\<^verbatim>\<open>FileEntry::SetClus\<close>: the high half is shifted right by 4, then cut to 16 bits.\<close>

definition SetClus :: "FileEntry \<Rightarrow> 32 word \<Rightarrow> FileEntry" where
  "SetClus e cluster =
     e\<lparr>clus := cluster,
       hi := ucast (drop_bit 4 (cluster AND 0xFFFF0000)),
       lo := ucast (cluster AND 0x0000FFFF)\<rparr>"

section \<open>Sequencing of calls that may throw\<close>

definition rbind :: "'a res \<Rightarrow> ('a \<Rightarrow> 'b res) \<Rightarrow> 'b res" where
  "rbind m f = (case m of Throw \<Rightarrow> Throw | Ret x \<Rightarrow> f x)"

section \<open>Geometry\<close>

text \<open>
  The four \<^verbatim>\<open>Fat32Info\<close> member functions, in \<^verbatim>\<open>uint32_t\<close> arithmetic. The source
  divides by \<^verbatim>\<open>BytesPerSec\<close> and \<^verbatim>\<open>SecPerClus\<close> without a check; \<^verbatim>\<open>Validate\<close> has
  made both nonzero before any of these functions runs.
\<close>

definition GetFirstSectorOfClus :: "Fat32Info \<Rightarrow> 32 word \<Rightarrow> 32 word" where
  "GetFirstSectorOfClus fi n = ((n - 2) * SecPerClus fi) + FirstDataSec fi"

definition GetThisFatSecN :: "Fat32Info \<Rightarrow> 32 word \<Rightarrow> 32 word" where
  "GetThisFatSecN fi n = RsvdSecCnt fi + ((n * 4) div ucast (BytesPerSec fi))"

definition GetThisFatEntOff :: "Fat32Info \<Rightarrow> 32 word \<Rightarrow> 32 word" where
  "GetThisFatEntOff fi n = (n * 4) mod ucast (BytesPerSec fi)"

definition GetEndOfFat :: "Fat32Info \<Rightarrow> 32 word" where
  "GetEndOfFat fi = (TotSec fi - FirstDataSec fi) div SecPerClus fi + 1"

section \<open>Mount\<close>

text \<open>
  \<^verbatim>\<open>Filesys::Validate\<close>. The fields are read in the source's order, each read may
  throw; the checks follow in the source's order.
\<close>

definition Validate :: "Filesys \<Rightarrow> Filesys res" where
  "Validate fs =
    (if error fs then Throw else
     rbind (ReadValue fs 2 510 1 :: 8 word list res) (\<lambda>sig.
     if sig ! 0 \<noteq> 0x55 \<or> sig ! 1 \<noteq> 0xaa then Throw else
     rbind (ReadValue1 fs 11 2 :: 16 word res) (\<lambda>bytesPerSec.
     rbind (ReadValue1 fs 17 2 :: 16 word res) (\<lambda>rootEntCnt.
     rbind (ReadValue1 fs 22 2 :: 32 word res) (\<lambda>fATSz16.
     rbind (ReadValue1 fs 36 4 :: 32 word res) (\<lambda>fATSz32.
     rbind (ReadValue1 fs 14 2 :: 32 word res) (\<lambda>rsvdSecCnt.
     rbind (ReadValue1 fs 16 1 :: 32 word res) (\<lambda>numFats.
     rbind (ReadValue1 fs 13 1 :: 32 word res) (\<lambda>secPerClus.
     rbind (ReadValue1 fs 44 4 :: 32 word res) (\<lambda>rootClus.
     rbind (ReadValue1 fs 48 2 :: 32 word res) (\<lambda>fsInfo.
     rbind (ReadValue1 fs 32 4 :: 32 word res) (\<lambda>totSec.
     if bytesPerSec \<noteq> 512 \<and> bytesPerSec \<noteq> 1024 \<and> bytesPerSec \<noteq> 2048 \<and> bytesPerSec \<noteq> 4096
     then Throw
     else if rootEntCnt \<noteq> 0 then Throw
     else if secPerClus \<noteq> 1 \<and> secPerClus \<noteq> 2 \<and> secPerClus \<noteq> 4 \<and> secPerClus \<noteq> 16 \<and>
             secPerClus \<noteq> 32 \<and> secPerClus \<noteq> 64 \<and> secPerClus \<noteq> 128
     then Throw
     else if totSec = 0 then Throw
     else
       let rootDirSector = (word_of_int
               (((uint rootEntCnt * 32) + (uint bytesPerSec - 1)) div uint bytesPerSec) :: 32 word);
           fATSz = (if fATSz16 \<noteq> 0 then fATSz16 else fATSz32);
           firstDataSec = rsvdSecCnt + (numFats * fATSz) + rootDirSector
       in if fATSz16 \<noteq> 0 then Throw
          else Ret (fs\<lparr>cwd := rootClus, location := str ''/'',
                 finfo := \<lparr>Signature = sig, BytesPerSec = bytesPerSec, RootEntCnt = rootEntCnt,
                   RootDirSector = rootDirSector, FATSz16 = fATSz16, FATSz32 = fATSz32,
                   FATSz = fATSz, RsvdSecCnt = rsvdSecCnt, NumFats = numFats,
                   SecPerClus = secPerClus, FirstDataSec = firstDataSec, RootClus = rootClus,
                   FsInfo = fsInfo, TotSec = totSec\<rparr>\<rparr>)))))))))))))"

section \<open>FAT engine\<close>

definition fat_pos :: "Fat32Info \<Rightarrow> 32 word \<Rightarrow> 32 word \<Rightarrow> nat" where
  \<comment> \<open>the byte position of the entry of cluster \<open>n\<close> in FAT copy \<open>i\<close>, as the source computes it\<close>
  "fat_pos fi i n =
     unat ((GetThisFatSecN fi n + (i * FATSz fi)) * ucast (BytesPerSec fi) + GetThisFatEntOff fi n)"

definition GetNextClus :: "Filesys \<Rightarrow> 32 word \<Rightarrow> 32 word res" where
  "GetNextClus fs cluster =
     rbind (ReadValue1 fs
              (unat (GetThisFatSecN (finfo fs) cluster * ucast (BytesPerSec (finfo fs))
                     + GetThisFatEntOff (finfo fs) cluster)) 4 :: 32 word res)
       (\<lambda>entry. Ret (entry AND FATMASK))"

text \<open>
  \<^verbatim>\<open>SetNextClus\<close>, one pass of the loop body for FAT copy \<open>i\<close>: the old word is read
  and combined with the value into \<open>entry\<close>, and then \<open>value\<close> is what is written.
\<close>

definition SetNextClus_body :: "32 word \<Rightarrow> 32 word \<Rightarrow> nat \<Rightarrow> Filesys \<Rightarrow> Filesys res" where
  "SetNextClus_body fatLoc val i fs =
     rbind (ReadValue1 fs (fat_pos (finfo fs) (of_nat i) fatLoc) 4 :: 32 word res) (\<lambda>entry.
       let entry' = entry AND (NOT FATMASK);
           val' = val AND FATMASK;
           entry'' = entry' OR val'
       in WriteValue1 fs val' (fat_pos (finfo fs) (of_nat i) fatLoc) 4)"

fun SetNextClus_upto :: "32 word \<Rightarrow> 32 word \<Rightarrow> nat list \<Rightarrow> Filesys \<Rightarrow> Filesys res" where
  "SetNextClus_upto fatLoc val [] fs = Ret fs"
| "SetNextClus_upto fatLoc val (i # is) fs =
     rbind (SetNextClus_body fatLoc val i fs) (SetNextClus_upto fatLoc val is)"

text \<open>
  The loop counter is a \<^verbatim>\<open>uint8_t\<close>: with \<^verbatim>\<open>NumFats\<close> above 255 it wraps from 255 to
  0 and the loop never ends, unless one of the 256 accesses throws.
\<close>

definition SetNextClus :: "Filesys \<Rightarrow> 32 word \<Rightarrow> 32 word \<Rightarrow> Filesys res option" where
  "SetNextClus fs fatLoc val =
     (if NumFats (finfo fs) \<le> 255
      then Some (SetNextClus_upto fatLoc val [0..<unat (NumFats (finfo fs))] fs)
      else (case SetNextClus_upto fatLoc val [0..<256] fs of
              Throw \<Rightarrow> Some Throw | Ret fs' \<Rightarrow> None))"

definition GetFATNxtFree :: "Filesys \<Rightarrow> 32 word res" where
  "GetFATNxtFree fs =
     ReadValue1 fs (unat (ucast (BytesPerSec (finfo fs)) * FsInfo (finfo fs) + 492)) 4"

definition SetFATNxtFree :: "Filesys \<Rightarrow> 32 word \<Rightarrow> Filesys res" where
  "SetFATNxtFree fs cluster =
     WriteValue1 fs cluster (unat (ucast (BytesPerSec (finfo fs)) * FsInfo (finfo fs) + 492)) 4"

definition GetNFreeClus :: "Filesys \<Rightarrow> 32 word res" where
  "GetNFreeClus fs =
     ReadValue1 fs (unat (FsInfo (finfo fs) * ucast (BytesPerSec (finfo fs)) + 488)) 4"

definition SetNFreeClus :: "Filesys \<Rightarrow> 32 word \<Rightarrow> Filesys res" where
  "SetNFreeClus fs v =
     WriteValue1 fs v (unat (FsInfo (finfo fs) * ucast (BytesPerSec (finfo fs)) + 488)) 4"

definition UpdateClusCount :: "Filesys \<Rightarrow> (32 word \<Rightarrow> 32 word) \<Rightarrow> Filesys res" where
  "UpdateClusCount fs op = rbind (GetNFreeClus fs) (\<lambda>clusCount. SetNFreeClus fs (op clusCount))"

section \<open>Strings\<close>

text \<open>
  \<^verbatim>\<open>std::string::npos\<close> and \<^verbatim>\<open>find_first_of(chars, pos)\<close>: the position of the first
  byte at or after \<open>pos\<close> that occurs in \<open>chars\<close>, or \<open>npos\<close>. \<^verbatim>\<open>::tolower\<close> and
  \<^verbatim>\<open>::toupper\<close> are those of the C locale, the program never sets another.
\<close>

definition npos :: nat where
  "npos = 2 ^ 64 - 1"

definition sub_size_t :: "nat \<Rightarrow> nat \<Rightarrow> nat" where
  \<comment> \<open>\<open>a - b\<close> in \<^verbatim>\<open>size_t\<close>, for \<open>a\<close> and \<open>b\<close> up to \<open>2 ^ 64\<close>\<close>
  "sub_size_t a b = (a + 2 ^ 64 - b) mod 2 ^ 64"

fun find_first_of_list :: "bytes \<Rightarrow> bytes \<Rightarrow> nat \<Rightarrow> nat" where
  "find_first_of_list [] cs i = npos"
| "find_first_of_list (c # s) cs i = (if c \<in> set cs then i else find_first_of_list s cs (Suc i))"

definition find_first_of :: "bytes \<Rightarrow> bytes \<Rightarrow> nat \<Rightarrow> nat" where
  "find_first_of s cs pos = find_first_of_list (drop pos s) cs pos"

definition tolower :: "8 word \<Rightarrow> 8 word" where
  "tolower c = (if 0x41 \<le> c \<and> c \<le> 0x5A then c + 0x20 else c)"

definition toupper :: "8 word \<Rightarrow> 8 word" where
  "toupper c = (if 0x61 \<le> c \<and> c \<le> 0x7A then c - 0x20 else c)"

section \<open>File names\<close>

text \<open>
  \<^verbatim>\<open>Filesys::ValidateFileName\<close>. The set of refused characters is the source's literal
  \<^verbatim>\<open>"/ \"*+`-;:<>=?"\<close>, in which \<^verbatim>\<open>\"\<close> is the double quote: slash, space, double
  quote, star, plus, backquote, minus, semicolon, colon, less, greater, equals,
  question mark. \<open>pad_at s i\<close> is the source's
  \<^verbatim>\<open>i >= s.length() ? ' ' : s[i]\<close>. The result is the \<^verbatim>\<open>std::string\<close> built from the
  NUL-terminated \<^verbatim>\<open>fixedName\<close>.
\<close>

definition invalid_chars :: bytes where
  "invalid_chars = str [CHR ''/'', CHR '' '', CHR 0x22, CHR ''*'', CHR ''+'', CHR 0x60,
     CHR ''-'', CHR '';'', CHR '':'', CHR ''<'', CHR ''>'', CHR ''='', CHR ''?'']"

definition pad_at :: "bytes \<Rightarrow> nat \<Rightarrow> 8 word" where
  "pad_at s i = (if i \<ge> length s then 0x20 else s ! i)"

definition ValidateFileName :: "bytes \<Rightarrow> bytes res" where
  "ValidateFileName nm =
    (let invalidChars = find_first_of nm invalid_chars 0 in
     if invalidChars \<noteq> npos then Throw
     else
       let dotPos = find_first_of nm (str ''.'') 0 in
       if dotPos = 0 \<or> dotPos = sub_size_t (length nm) 1 then Throw
       else if dotPos \<noteq> npos then
         (if sub_size_t (length nm) (dotPos + 1) > 3 then Throw
          else
            let postfix = drop (dotPos + 1) nm;
                nm' = take dotPos nm
            in Ret (c_string (map (pad_at nm') [0..<8] @ map (\<lambda>i. pad_at postfix (i - 8)) [8..<11])))
       else if length nm > 8 then Throw
       else Ret (c_string (map (pad_at nm) [0..<11])))"

text \<open>
  The copy constructor copies every member except the write time and date, which it
  leaves uninitialised (the model keeps them; they are assigned before every use), and
  rebuilds the cluster number from the two halves.
\<close>

definition FileEntry_copy :: "FileEntry \<Rightarrow> FileEntry" where
  "FileEntry_copy a = a\<lparr>clus := mk_clus (lo a) (hi a)\<rparr>"

text \<open>\<^verbatim>\<open>FileEntry::GetShortName\<close>, \<^verbatim>\<open>IsDir\<close> and \<^verbatim>\<open>SetCurrentTime\<close>.\<close>

definition GetShortName :: "FileEntry \<Rightarrow> bytes" where
  "GetShortName e =
     (let newName = filter (\<lambda>c. c \<noteq> 0x20) (take 8 (name e));
          postfix = filter (\<lambda>c. c \<noteq> 0x20) (take 3 (drop 8 (name e)));
          newName' = (if length postfix \<noteq> 0 then newName @ str ''.'' @ postfix else newName)
      in map tolower newName')"

definition IsDir :: "FileEntry \<Rightarrow> bool" where
  "IsDir e = (if attr e AND DIRECT = DIRECT then True else False)"

definition SetCurrentTime :: "tm \<Rightarrow> FileEntry \<Rightarrow> FileEntry" where
  "SetCurrentTime localTime e =
     (let wrtDate0 = (word_of_int (tm_mday localTime) :: 16 word);
          wrtDate1 = wrtDate0 OR word_of_int (push_bit 5 (tm_mon localTime + 1));
          wrtDate2 = wrtDate1 OR word_of_int (push_bit 9 (tm_year localTime - 80));
          tValue = (word_of_int (tm_sec localTime div 2) :: 8 word);
          wrtTime0 = (if tValue > 29 then 29 else ucast tValue :: 16 word);
          wrtTime1 = wrtTime0 OR word_of_int (push_bit 5 (tm_min localTime));
          wrtTime2 = wrtTime1 OR word_of_int (push_bit 11 (tm_hour localTime))
      in e\<lparr>wrtDate := wrtDate2, wrtTime := wrtTime2\<rparr>)"

section \<open>Directory listings\<close>

text \<open>
  \<^verbatim>\<open>Filesys::GetFileList\<close>. \<open>read_entry\<close> is one pass of the body of the inner loop,
  for the slot at byte position \<open>pos\<close>; \<open>GetFileList_slots\<close> is the inner loop over the
  slots of a cluster and \<open>GetFileList_loop\<close> the \<^verbatim>\<open>do ... while\<close> over the cluster
  chain, which does not end on a cyclic chain. \<^verbatim>\<open>push_back\<close> stores a copy.
\<close>

definition read_entry :: "Filesys \<Rightarrow> bool \<Rightarrow> 32 word \<Rightarrow> FileEntry list \<Rightarrow> FileEntry list res" where
  "read_entry fs getDealloc pos list =
     rbind (ReadValue fs 11 (unat pos) 1 :: 8 word list res) (\<lambda>nm.
     rbind (ReadValue1 fs (unat (pos + 11)) 1 :: 8 word res) (\<lambda>attr'.
     rbind (ReadValue1 fs (unat (pos + 20)) 2 :: 16 word res) (\<lambda>hi'.
     rbind (ReadValue1 fs (unat (pos + 26)) 2 :: 16 word res) (\<lambda>lo'.
     rbind (ReadValue1 fs (unat (pos + 28)) 4 :: 32 word res) (\<lambda>size'.
       if attr' AND LONG = LONG then Ret list
       else if (nm ! 0 \<noteq> 0 \<and> nm ! 0 \<noteq> DEALLOC \<and> \<not> getDealloc)
               \<or> ((nm ! 0 = 0 \<or> nm ! 0 = DEALLOC) \<and> getDealloc)
       then Ret (list @ [FileEntry_copy (FileEntry_new nm attr' lo' hi' size' pos)])
       else Ret list)))))"

fun GetFileList_slots ::
  "Filesys \<Rightarrow> bool \<Rightarrow> 32 word \<Rightarrow> nat list \<Rightarrow> FileEntry list \<Rightarrow> FileEntry list res" where
  "GetFileList_slots fs getDealloc loc [] list = Ret list"
| "GetFileList_slots fs getDealloc loc (i # is) list =
     rbind (read_entry fs getDealloc (loc + (32 * of_nat i)) list)
       (GetFileList_slots fs getDealloc loc is)"

partial_function (option) GetFileList_loop ::
  "Filesys \<Rightarrow> bool \<Rightarrow> 32 word \<Rightarrow> FileEntry list \<Rightarrow> FileEntry list res option" where
  "GetFileList_loop fs getDealloc currentCluster list =
     (let entries = ucast (BytesPerSec (finfo fs)) * SecPerClus (finfo fs) div 32;
          loc = ucast (BytesPerSec (finfo fs))
                       * GetFirstSectorOfClus (finfo fs) currentCluster
      in case GetFileList_slots fs getDealloc loc [0..<unat entries] list of
           Throw \<Rightarrow> Some Throw
         | Ret list' \<Rightarrow>
            (case GetNextClus fs currentCluster of
               Throw \<Rightarrow> Some Throw
             | Ret nextCluster \<Rightarrow>
                 if nextCluster < FATEND
                 then GetFileList_loop fs getDealloc nextCluster list'
                 else Some (Ret list')))"

definition GetFileList :: "Filesys \<Rightarrow> 32 word \<Rightarrow> bool \<Rightarrow> FileEntry list res option" where
  "GetFileList fs cluster getDealloc = GetFileList_loop fs getDealloc cluster []"

section \<open>Path resolver\<close>

text \<open>
  \<^verbatim>\<open>Filesys::ParseAddress\<close>. The loop looks for the next slash from \<open>start\<close>;
  \<open>end + 1\<close> does not wrap because \<open>end\<close> is below \<^verbatim>\<open>npos\<close>.
\<close>

lemma find_first_of_bounds:
  "find_first_of s cs pos \<noteq> npos \<Longrightarrow> pos \<le> find_first_of s cs pos \<and> find_first_of s cs pos < length s"
proof -
  have *: "find_first_of_list t cs i \<noteq> npos
         \<Longrightarrow> i \<le> find_first_of_list t cs i \<and> find_first_of_list t cs i < i + length t" for t i
    by (induction t arbitrary: i) (auto split: if_splits, fastforce+)
  assume "find_first_of s cs pos \<noteq> npos"
  then have n: "find_first_of_list (drop pos s) cs pos \<noteq> npos"
    by (simp add: find_first_of_def)
  then have "drop pos s \<noteq> []" by auto
  then have "pos < length s" by simp
  with * [OF n] show ?thesis by (simp add: find_first_of_def)
qed

function ParseAddress_loop :: "bytes \<Rightarrow> nat \<Rightarrow> bytes list \<Rightarrow> bytes list" where
  "ParseAddress_loop add start list =
     (let en = find_first_of add (str ''/'') start in
      if en \<noteq> npos then
        ParseAddress_loop add (en + 1)
          (if sub_size_t start en \<noteq> 0 then list @ [take (en - start) (drop start add)] else list)
      else (if start < length add then list @ [drop start add] else list))"
  by pat_completeness auto
termination
proof (relation "measure (\<lambda>(add, start, list). length add - start)")
  show "wf (measure (\<lambda>(add, start, list). length add - start))" by simp
next
  fix add :: bytes and start :: nat and list :: "bytes list" and x :: nat
  assume "x = find_first_of add (str ''/'') start" and "x \<noteq> npos"
  then have "start \<le> x \<and> x < length add"
    using find_first_of_bounds by blast
  then show "((add, x + 1,
               if sub_size_t start x \<noteq> 0 then list @ [take (x - start) (drop start add)]
               else list), add, start, list)
             \<in> measure (\<lambda>(add, start, list). length add - start)"
    by auto
qed

definition ParseAddress :: "bytes \<Rightarrow> bytes list" where
  "ParseAddress add =
     (if length add \<noteq> 0 then
        (let add' = map tolower add in
         if add' ! 0 = 0x2F then ParseAddress_loop add' 1 [str ''/'']
         else ParseAddress_loop add' 0 [])
      else [])"

text \<open>
  \<^verbatim>\<open>Filesys::NavToDir\<close>. The range-for loop visits the list from its first item,
  whatever \<open>start\<close> is, with the counter \<open>i\<close> starting at \<open>start\<close>. Each loop variable
  \<^verbatim>\<open>FileEntry e\<close> is a copy of the list element.
\<close>

fun NavToDir_loop :: "Filesys \<Rightarrow> bytes list \<Rightarrow> nat \<Rightarrow> nat \<Rightarrow> 32 word \<Rightarrow> 32 word res option" where
  "NavToDir_loop fs [] i en currDirClus = Some (Ret currDirClus)"
| "NavToDir_loop fs (item # rest) i en currDirClus =
    (if i = en then Some (Ret currDirClus)
     else if i = 0 \<and> item = str ''/''
     then NavToDir_loop fs rest (i + 1) en (RootClus (finfo fs))
     else if item \<noteq> str ''.'' \<or> currDirClus \<noteq> RootClus (finfo fs) then
       (case GetFileList fs currDirClus False of
          None \<Rightarrow> None
        | Some Throw \<Rightarrow> Some Throw
        | Some (Ret entries) \<Rightarrow>
           (case find (\<lambda>e. GetShortName e = item \<and> IsDir e) (map FileEntry_copy entries) of
              None \<Rightarrow> Some Throw
            | Some e \<Rightarrow>
                NavToDir_loop fs rest (i + 1) en
                  (if clus e = 0 \<and> item = str ''..'' then RootClus (finfo fs) else clus e)))
     else NavToDir_loop fs rest (i + 1) en currDirClus)"

definition NavToDir :: "Filesys \<Rightarrow> bytes list \<Rightarrow> nat \<Rightarrow> nat \<Rightarrow> 32 word res option" where
  "NavToDir fs list start en =
     (if sub_size_t start en = 0 then Some (Ret (cwd fs))
      else if length list = 0 then Some Throw
      else NavToDir_loop fs list start en (cwd fs))"

text \<open>
  \<^verbatim>\<open>Filesys::GenPathName\<close>. \<open>GenPathName_entries\<close> is the range-for loop over one
  listing, on the variables \<open>foundClus\<close>, \<open>prevClus\<close> and \<open>name\<close>; the \<^verbatim>\<open>while\<close> loop
  around it ends when the root cluster has been listed, if ever.
\<close>

fun GenPathName_entries ::
  "Filesys \<Rightarrow> 32 word \<Rightarrow> FileEntry list \<Rightarrow> 32 word \<times> 32 word \<times> bytes \<Rightarrow> 32 word \<times> 32 word \<times> bytes" where
  "GenPathName_entries fs curClus [] st = st"
| "GenPathName_entries fs curClus (e # es) (foundClus, prevClus, nm) =
     (let foundClus' =
            (if GetShortName e = str ''..''
             then (if clus e = 0 then RootClus (finfo fs) else clus e)
             else foundClus)
      in if prevClus = clus e \<and> GetShortName e \<noteq> str ''.''
         then GenPathName_entries fs curClus es
                (foundClus',
                 curClus,
                 (if length nm = 0 then GetShortName e else GetShortName e @ str ''/'' @ nm))
         else GenPathName_entries fs curClus es (foundClus', prevClus, nm))"

partial_function (option) GenPathName_loop ::
  "Filesys \<Rightarrow> 32 word \<Rightarrow> 32 word \<Rightarrow> 32 word \<Rightarrow> bytes \<Rightarrow> bytes res option" where
  "GenPathName_loop fs curClus prevClus foundClus nm =
     (if curClus \<noteq> RootClus (finfo fs) then
        (case GetFileList fs foundClus False of
           None \<Rightarrow> None
         | Some Throw \<Rightarrow> Some Throw
         | Some (Ret list) \<Rightarrow>
            (case GenPathName_entries fs foundClus (map FileEntry_copy list)
                    (foundClus, prevClus, nm) of
               (foundClus', prevClus', nm') \<Rightarrow>
                  GenPathName_loop fs foundClus prevClus' foundClus' nm'))
      else Some (Ret (str ''/'' @ nm)))"

definition GenPathName :: "Filesys \<Rightarrow> 32 word \<Rightarrow> bytes res option" where
  "GenPathName fs clus' = GenPathName_loop fs (cwd fs) clus' clus' []"

text \<open>
  Navigation as the specification words it, to compare \<^verbatim>\<open>NavToDir\<close> with. One step:
  \<^verbatim>\<open>.\<close> in the root is a no-op; otherwise the directory is enumerated and a directory
  entry whose display name equals the segment is stepped into, \<^verbatim>\<open>..\<close> with stored
  cluster 0 leading to the root. The step fails when the enumeration throws or no
  directory has that name. A walk steps through the segments in order.
\<close>

datatype step_result = Enters "32 word" | Fails | NoReturn

definition spec_step :: "Filesys \<Rightarrow> 32 word \<Rightarrow> bytes \<Rightarrow> step_result" where
  "spec_step fs c seg =
     (if seg = str ''.'' \<and> c = RootClus (finfo fs) then Enters c
      else case GetFileList fs c False of
             None \<Rightarrow> NoReturn
           | Some Throw \<Rightarrow> Fails
           | Some (Ret entries) \<Rightarrow>
              (case find (\<lambda>e. GetShortName e = seg \<and> IsDir e) (map FileEntry_copy entries) of
                 None \<Rightarrow> Fails
               | Some e \<Rightarrow>
                   Enters (if clus e = 0 \<and> seg = str ''..'' then RootClus (finfo fs) else clus e)))"

fun spec_walk :: "Filesys \<Rightarrow> 32 word \<Rightarrow> bytes list \<Rightarrow> 32 word option" where
  "spec_walk fs c [] = Some c"
| "spec_walk fs c (seg # segs) =
     (case spec_step fs c seg of
        Enters c' \<Rightarrow> spec_walk fs c' segs
      | Fails \<Rightarrow> None
      | NoReturn \<Rightarrow> None)"

section \<open>Commands\<close>

text \<open>
  A command returns the state it leaves. \<open>Some Throw\<close> is an exception that leaves the
  command (\<^verbatim>\<open>CallFunct\<close> catches it); the state reached by then is not part of the
  result. \<open>None\<close> is a command that does not return.

  \<^verbatim>\<open>Filesys::Cd\<close>: the exception of \<^verbatim>\<open>NavToDir\<close> is caught in the command, which then
  returns.
\<close>

definition Cd :: "Filesys \<Rightarrow> bytes list \<Rightarrow> Filesys res option" where
  "Cd fs argv =
    (if length argv > 1 then Some (Ret fs)
     else
       let target = (if length argv < 1 then str ''/'' else argv ! 0);
           list = ParseAddress target
       in case NavToDir fs list 0 (length list) of
            None \<Rightarrow> None
          | Some Throw \<Rightarrow> Some (Ret fs)
          | Some (Ret currDirClus) \<Rightarrow>
              (case GenPathName (fs\<lparr>cwd := currDirClus\<rparr>) currDirClus of
                 None \<Rightarrow> None
               | Some Throw \<Rightarrow> Some Throw
               | Some (Ret loc) \<Rightarrow> Some (Ret (fs\<lparr>cwd := currDirClus, location := loc\<rparr>))))"

text \<open>\<^verbatim>\<open>Filesys::Close\<close>: the first entry of the open table with that name is erased.\<close>

fun erase_first :: "('a \<Rightarrow> bool) \<Rightarrow> 'a list \<Rightarrow> 'a list" where
  "erase_first P [] = []"
| "erase_first P (x # xs) = (if P x then xs else x # erase_first P xs)"

definition Close :: "Filesys \<Rightarrow> bytes list \<Rightarrow> Filesys" where
  "Close fs argv =
     (if length argv \<noteq> 1 then fs
      else fs\<lparr>openTable := erase_first (\<lambda>e. GetShortName e = argv ! 0) (openTable fs)\<rparr>)"

text \<open>
  \<^verbatim>\<open>Filesys::SaveFileEntry\<close>, with the local time that \<^verbatim>\<open>SetCurrentTime\<close> reads as a
  parameter. \<open>name_at beyond s i\<close> is \<^verbatim>\<open>s[i]\<close> on a \<^verbatim>\<open>std::string\<close>: a byte of the
  string for \<open>i < length s\<close>, the terminating NUL at \<open>i = length s\<close>. The source copies
  \<^verbatim>\<open>entry.name[i]\<close> for every \<open>i\<close> below 11, also past \<open>length s\<close> when the name is shorter
  than 10 bytes; C++ leaves such a read undefined, and the model reads the byte
  \<open>beyond i\<close> there, a parameter of which nothing is assumed.
\<close>

definition name_at :: "(nat \<Rightarrow> 8 word) \<Rightarrow> bytes \<Rightarrow> nat \<Rightarrow> 8 word" where
  "name_at beyond s i = (if i < length s then s ! i else if i = length s then 0 else beyond i)"

definition SaveFileEntry ::
  "Filesys \<Rightarrow> tm \<Rightarrow> (nat \<Rightarrow> 8 word) \<Rightarrow> FileEntry \<Rightarrow> Filesys res" where
  "SaveFileEntry fs0 localTime beyond entry0 =
     (let loc = entryLoc entry0;
          zero = (0 :: 32 word);
          nm = map (name_at beyond (name entry0)) [0..<11];
          entry = SetCurrentTime localTime entry0
      in rbind (WriteValue fs0 nm (unat loc) 1) (\<lambda>fs.
         rbind (WriteValue1 fs (attr entry) (unat (loc + 11)) 1) (\<lambda>fs.
         rbind (WriteValue1 fs zero (unat (loc + 13)) 1) (\<lambda>fs.
         rbind (WriteValue1 fs zero (unat (loc + 14)) 2) (\<lambda>fs.
         rbind (WriteValue1 fs zero (unat (loc + 16)) 2) (\<lambda>fs.
         rbind (WriteValue1 fs zero (unat (loc + 18)) 2) (\<lambda>fs.
         rbind (WriteValue1 fs (hi entry) (unat (loc + 20)) 2) (\<lambda>fs.
         rbind (WriteValue1 fs (wrtTime entry) (unat (loc + 22)) 2) (\<lambda>fs.
         rbind (WriteValue1 fs (wrtDate entry) (unat (loc + 24)) 2) (\<lambda>fs.
         rbind (WriteValue1 fs (lo entry) (unat (loc + 26)) 2) (\<lambda>fs.
                WriteValue1 fs (size_fe entry) (unat (loc + 28)) 4)))))))))))"

text \<open>
  The \<^verbatim>\<open>do ... while\<close> loop of \<^verbatim>\<open>Rm\<close> and \<^verbatim>\<open>Rmdir\<close> that frees a chain: read the
  next cluster, clear the entry, add one to the free count, go on while the next
  cluster is below \<^verbatim>\<open>FATEND\<close>.
\<close>

partial_function (option) free_chain_loop :: "Filesys \<Rightarrow> 32 word \<Rightarrow> Filesys res option" where
  "free_chain_loop fs lastCluster =
     (case GetNextClus fs lastCluster of
        Throw \<Rightarrow> Some Throw
      | Ret currCluster \<Rightarrow>
         (case SetNextClus fs lastCluster 0 of
            None \<Rightarrow> None
          | Some Throw \<Rightarrow> Some Throw
          | Some (Ret fs1) \<Rightarrow>
             (case UpdateClusCount fs1 (\<lambda>v. v + 1) of
                Throw \<Rightarrow> Some Throw
              | Ret fs2 \<Rightarrow>
                  if currCluster < FATEND then free_chain_loop fs2 currCluster
                  else Some (Ret fs2))))"

text \<open>
  \<^verbatim>\<open>Filesys::Rm\<close>. \<open>Rm_one\<close> is the body of the loop over the arguments and returns
  \<open>found\<close> with the state; \<open>clock i\<close> is the local time read while argument \<open>i\<close> is
  removed, and \<open>beyond i\<close> the bytes that \<^verbatim>\<open>SaveFileEntry\<close> reads past the end of a short
  name then. The entry removed is the first one of the listing with that name that is
  not a directory.
\<close>

definition Rm_remove ::
  "Filesys \<Rightarrow> 32 word \<Rightarrow> tm \<Rightarrow> (nat \<Rightarrow> 8 word) \<Rightarrow> bytes \<Rightarrow> (Filesys \<times> bool) res option" where
  \<comment> \<open>from the listing of the directory to the end of the loop body\<close>
  "Rm_remove fs loc localTime beyond nm =
    (case GetFileList fs loc False of
       None \<Rightarrow> None
     | Some Throw \<Rightarrow> Some Throw
     | Some (Ret list) \<Rightarrow>
        (case find (\<lambda>e. GetShortName e = nm \<and> \<not> (attr e AND DIRECT = DIRECT))
                (map FileEntry_copy list) of
           None \<Rightarrow> Some (Ret (fs, False))
         | Some e \<Rightarrow>
            (case (if clus e \<noteq> 0 then free_chain_loop fs (clus e) else Some (Ret fs)) of
               None \<Rightarrow> None
             | Some Throw \<Rightarrow> Some Throw
             | Some (Ret fs1) \<Rightarrow>
                (case SaveFileEntry fs1 localTime beyond (e\<lparr>name := (name e)[0 := 0xe5]\<rparr>) of
                   Throw \<Rightarrow> Some Throw
                 | Ret fs2 \<Rightarrow> Some (Ret (fs2, True))))))"

definition Rm_one ::
  "Filesys \<Rightarrow> tm \<Rightarrow> (nat \<Rightarrow> 8 word) \<Rightarrow> bytes \<Rightarrow> (Filesys \<times> bool) res option" where
  "Rm_one fs localTime beyond nm =
     Rm_remove (if \<exists>e\<in>set (openTable fs). GetShortName e = nm then Close fs [nm] else fs)
       (cwd fs) localTime beyond nm"

fun Rm_args ::
  "Filesys \<Rightarrow> (nat \<Rightarrow> tm) \<Rightarrow> (nat \<Rightarrow> nat \<Rightarrow> 8 word) \<Rightarrow> nat \<Rightarrow> bytes list \<Rightarrow> Filesys res option" where
  "Rm_args fs clock beyond i [] = Some (Ret fs)"
| "Rm_args fs clock beyond i (nm # rest) =
     (case Rm_one fs (clock i) (beyond i) nm of
        None \<Rightarrow> None
      | Some Throw \<Rightarrow> Some Throw
      | Some (Ret (fs', found)) \<Rightarrow>
          if \<not> found then Some (Ret fs') else Rm_args fs' clock beyond (i + 1) rest)"

definition Rm ::
  "Filesys \<Rightarrow> (nat \<Rightarrow> tm) \<Rightarrow> (nat \<Rightarrow> nat \<Rightarrow> 8 word) \<Rightarrow> bytes list \<Rightarrow> Filesys res option" where
  "Rm fs clock beyond argv =
     (if length argv = 0 then Some (Ret fs) else Rm_args fs clock beyond 0 argv)"

text \<open>
  \<^verbatim>\<open>Filesys::Rmdir\<close>: the first entry with that name counts, and only if it is a
  directory; the directory entry is saved first, its chain is freed afterwards.
\<close>

definition Rmdir ::
  "Filesys \<Rightarrow> tm \<Rightarrow> (nat \<Rightarrow> 8 word) \<Rightarrow> bytes list \<Rightarrow> Filesys res option" where
  "Rmdir fs localTime beyond argv =
    (if length argv \<noteq> 1 then Some (Ret fs)
     else
       let nm = argv ! 0
       in case GetFileList fs (cwd fs) False of
            None \<Rightarrow> None
          | Some Throw \<Rightarrow> Some Throw
          | Some (Ret list) \<Rightarrow>
             (case (if name_at beyond nm 0 \<noteq> 0x2E
                    then (case find (\<lambda>e. GetShortName e = nm) (map FileEntry_copy list) of
                            None \<Rightarrow> None
                          | Some e \<Rightarrow>
                              if attr e AND DIRECT = DIRECT then Some (FileEntry_copy e) else None)
                    else None) of
                None \<Rightarrow> Some (Ret fs)
              | Some entry \<Rightarrow>
                 (case GetFileList fs (clus entry) False of
                    None \<Rightarrow> None
                  | Some Throw \<Rightarrow> Some Throw
                  | Some (Ret list') \<Rightarrow>
                     if length list' > 2 then Some (Ret fs)
                     else
                       (case SaveFileEntry fs localTime beyond
                               (entry\<lparr>name := (name entry)[0 := 0xe5]\<rparr>) of
                          Throw \<Rightarrow> Some Throw
                        | Ret fs1 \<Rightarrow>
                            if clus entry \<noteq> 0 then free_chain_loop fs1 (clus entry)
                            else Some (Ret fs1)))))"

section \<open>Allocation\<close>

text \<open>
  \<^verbatim>\<open>Filesys::ZeroOutCluster\<close>: one byte is written for each \<open>i\<close> below \<open>len\<close>, at
  \<open>start + i\<close> in \<^verbatim>\<open>uint32_t\<close>.
\<close>

fun ZeroOutCluster_loop :: "32 word \<Rightarrow> nat list \<Rightarrow> Filesys \<Rightarrow> Filesys res" where
  "ZeroOutCluster_loop start [] fs = Ret fs"
| "ZeroOutCluster_loop start (i # is) fs =
     rbind (WriteValue1 fs (0 :: 8 word) (unat (start + of_nat i)) 1) (ZeroOutCluster_loop start is)"

definition ZeroOutCluster :: "Filesys \<Rightarrow> 32 word \<Rightarrow> Filesys res" where
  "ZeroOutCluster fs cluster =
     (let start = ucast (BytesPerSec (finfo fs)) * GetFirstSectorOfClus (finfo fs) cluster;
          len = ucast (BytesPerSec (finfo fs)) * SecPerClus (finfo fs)
      in ZeroOutCluster_loop start [0..<unat len] fs)"

text \<open>
  \<^verbatim>\<open>Filesys::AllocateCluster\<close>. \<open>AllocateCluster_scan\<close> is the inner \<^verbatim>\<open>do ... while\<close>:
  it reads the entry at \<open>position\<close> before it compares \<open>position\<close> with the end of
  the FAT, and returns \<open>found\<close> and \<open>position\<close>. \<open>AllocateCluster_find\<close> is the outer
  loop, which runs the scan a second time from cluster 2 when the first one started
  from the hint and found nothing. \<open>chain_last\<close> is the walk to the last cluster of
  the chain to append to; it does not end on a cyclic chain.
\<close>

function AllocateCluster_scan :: "Filesys \<Rightarrow> 32 word \<Rightarrow> 32 word \<Rightarrow> (bool \<times> 32 word) res" where
  "AllocateCluster_scan fs endOfFat position =
     (case GetNextClus fs position of
        Throw \<Rightarrow> Throw
      | Ret entryValue \<Rightarrow>
          if entryValue = 0 then Ret (True, position)
          else if position + 1 < endOfFat then AllocateCluster_scan fs endOfFat (position + 1)
          else Ret (False, position + 1))"
  by pat_completeness auto
termination
proof (relation "measure (\<lambda>(fs, endOfFat, position).
          if position < endOfFat then unat endOfFat - unat position else unat endOfFat + 1)")
  show "wf (measure (\<lambda>(fs, endOfFat, position).
          if position < endOfFat then unat endOfFat - unat position else unat endOfFat + 1))"
    by simp
next
  fix fs :: Filesys and endOfFat position x2 :: "32 word"
  assume lt: "position + 1 < endOfFat"
  have le: "unat (position + 1) \<le> unat position + 1"
    by (simp add: unat_word_ariths)
  show "((fs, endOfFat, position + 1), fs, endOfFat, position)
          \<in> measure (\<lambda>(fs, endOfFat, position).
               if position < endOfFat then unat endOfFat - unat position else unat endOfFat + 1)"
  proof (cases "position < endOfFat")
    case True
    then have "position \<noteq> - 1"
      by (metis word_order.extremum_strict)
    then have "unat (position + 1) = unat position + 1"
      by (metis add.commute unatSuc Suc_eq_plus1 add_diff_cancel_left' diff_0)
    with True lt show ?thesis
      by (simp add: word_less_nat_alt)
  next
    case False
    with lt show ?thesis
      by (simp add: word_less_nat_alt)
  qed
qed

definition AllocateCluster_find :: "Filesys \<Rightarrow> (bool \<times> 32 word) res" where
  "AllocateCluster_find fs =
     rbind (GetFATNxtFree fs) (\<lambda>hint.
       let endOfFat = GetEndOfFat (finfo fs);
           position = (if hint = 0xFFFFFFFF then 2 else hint);
           startFromTop = (if hint = 0xFFFFFFFF then 1 else 0 :: int)
       in rbind (AllocateCluster_scan fs endOfFat position) (\<lambda>(found, position).
            if \<not> found \<and> startFromTop + 1 < 2
            then rbind (AllocateCluster_scan fs endOfFat 2) (\<lambda>(found, position).
                   Ret (found, if \<not> found then 2 else position))
            else Ret (found, if \<not> found then 2 else position)))"

partial_function (option) chain_last :: "Filesys \<Rightarrow> 32 word \<Rightarrow> 32 word res option" where
  "chain_last fs loc =
     (case GetNextClus fs loc of
        Throw \<Rightarrow> Some Throw
      | Ret templocat \<Rightarrow> if templocat \<ge> FATEND then Some (Ret loc) else chain_last fs templocat)"

definition AllocateCluster :: "Filesys \<Rightarrow> 32 word \<Rightarrow> (Filesys \<times> 32 word) res option" where
  "AllocateCluster fs loc =
    (case AllocateCluster_find fs of
       Throw \<Rightarrow> Some Throw
     | Ret (found, position) \<Rightarrow>
        if \<not> found then Some (Ret (fs, 0))
        else
          (case (if loc \<noteq> 0
                 then (case chain_last fs loc of
                         None \<Rightarrow> None
                       | Some Throw \<Rightarrow> Some Throw
                       | Some (Ret loc') \<Rightarrow> SetNextClus fs loc' position)
                 else Some (Ret fs)) of
             None \<Rightarrow> None
           | Some Throw \<Rightarrow> Some Throw
           | Some (Ret fs1) \<Rightarrow>
              (case SetNextClus fs1 position 0xFFFFFFFF of
                 None \<Rightarrow> None
               | Some Throw \<Rightarrow> Some Throw
               | Some (Ret fs2) \<Rightarrow>
                   Some (rbind (SetFATNxtFree fs2 position) (\<lambda>fs3.
                         rbind (UpdateClusCount fs3 (\<lambda>v. v - 1)) (\<lambda>fs4.
                         rbind (ZeroOutCluster fs4 position) (\<lambda>fs5.
                           Ret (fs5, position))))))))"

section \<open>Well-formed volumes and cluster chains\<close>

text \<open>
  The layout of a FAT32 volume, as the theorems about the FAT engine assume it: sectors
  of at least 512 bytes, at least one FAT and at most 255 (the field is one byte), the
  data region right after the FATs, the FS information sector among the reserved
  sectors, FATs large enough for every cluster up to \<^verbatim>\<open>GetEndOfFat\<close>, and a volume that
  fits in the image and is smaller than 4 GiB, since the source computes byte positions
  in \<^verbatim>\<open>uint32_t\<close>. A cluster is valid when its data lies in the data region. A chain
  is a list of valid clusters, each the FAT successor of the one before, the last one
  carrying an end-of-chain mark.
\<close>

definition bps :: "Filesys \<Rightarrow> nat" where
  "bps fs = unat (BytesPerSec (finfo fs))"

definition data_start :: "Filesys \<Rightarrow> nat" where
  "data_start fs = unat (FirstDataSec (finfo fs)) * bps fs"

definition wf_volume :: "Filesys \<Rightarrow> bool" where
  "wf_volume fs \<longleftrightarrow>
     512 \<le> bps fs \<and> 0 < unat (SecPerClus (finfo fs))
     \<and> 0 < unat (NumFats (finfo fs)) \<and> unat (NumFats (finfo fs)) \<le> 255
     \<and> unat (FirstDataSec (finfo fs))
         = unat (RsvdSecCnt (finfo fs)) + unat (NumFats (finfo fs)) * unat (FATSz (finfo fs))
     \<and> unat (FirstDataSec (finfo fs)) \<le> unat (TotSec (finfo fs))
     \<and> unat (FsInfo (finfo fs)) < unat (RsvdSecCnt (finfo fs))
     \<and> 4 * (unat (GetEndOfFat (finfo fs)) + 1) \<le> unat (FATSz (finfo fs)) * bps fs
     \<and> unat (TotSec (finfo fs)) * bps fs < 2 ^ 32
     \<and> unat (TotSec (finfo fs)) * bps fs \<le> filesys_size fs"

definition valid_clus :: "Filesys \<Rightarrow> 32 word \<Rightarrow> bool" where
  "valid_clus fs n \<longleftrightarrow> 2 \<le> n \<and> n \<le> GetEndOfFat (finfo fs)"

fun is_chain :: "Filesys \<Rightarrow> 32 word list \<Rightarrow> bool" where
  "is_chain fs [] = False"
| "is_chain fs [c] =
     (valid_clus fs c \<and> (case GetNextClus fs c of Throw \<Rightarrow> False | Ret t \<Rightarrow> t \<ge> FATEND))"
| "is_chain fs (c # d # cs) =
     (valid_clus fs c \<and> GetNextClus fs c = Ret d \<and> is_chain fs (d # cs))"

text \<open>
  \<open>same_but fs fs' A\<close>: the state \<open>fs'\<close> differs from \<open>fs\<close> at most in the image bytes at the
  addresses in \<open>A\<close>.
\<close>

definition same_but :: "Filesys \<Rightarrow> Filesys \<Rightarrow> nat set \<Rightarrow> bool" where
  "same_but fs fs' A \<longleftrightarrow>
     filesys_size fs' = filesys_size fs \<and> error fs' = error fs \<and> cwd fs' = cwd fs
     \<and> location fs' = location fs \<and> finfo fs' = finfo fs \<and> openTable fs' = openTable fs
     \<and> (\<forall>a. a \<notin> A \<longrightarrow> mFilesys fs' a = mFilesys fs a)"

text \<open>
  The 32 bytes that \<^verbatim>\<open>SaveFileEntry\<close> leaves at the position of an entry: the name,
  the attribute, byte 12 as it was (\<open>b12\<close>), zeros in bytes 13 to 19, and the cluster
  halves, write time and date and the size, least significant byte first.
\<close>

definition entry_bytes :: "tm \<Rightarrow> (nat \<Rightarrow> 8 word) \<Rightarrow> FileEntry \<Rightarrow> 8 word \<Rightarrow> 8 word list" where
  "entry_bytes localTime beyond e b12 =
     map (name_at beyond (name e)) [0..<11]
     @ [attr e, b12, 0, 0, 0, 0, 0, 0, 0,
        ucast (hi e), ucast (drop_bit 8 (hi e)),
        ucast (wrtTime (SetCurrentTime localTime e)),
        ucast (drop_bit 8 (wrtTime (SetCurrentTime localTime e))),
        ucast (wrtDate (SetCurrentTime localTime e)),
        ucast (drop_bit 8 (wrtDate (SetCurrentTime localTime e))),
        ucast (lo e), ucast (drop_bit 8 (lo e)),
        ucast (size_fe e), ucast (drop_bit 8 (size_fe e)),
        ucast (drop_bit 16 (size_fe e)), ucast (drop_bit 24 (size_fe e))]"

text \<open>The byte position of the data of a cluster, as the source computes it.\<close>

definition clus_pos :: "Filesys \<Rightarrow> 32 word \<Rightarrow> nat" where
  "clus_pos fs n = unat (ucast (BytesPerSec (finfo fs)) * GetFirstSectorOfClus (finfo fs) n :: 32 word)"

definition clus_size :: "Filesys \<Rightarrow> nat" where
  "clus_size fs = unat (ucast (BytesPerSec (finfo fs)) * SecPerClus (finfo fs) :: 32 word)"

text \<open>
  \<open>slot_ok fs gd e\<close>: the entry \<open>e\<close> is what \<^verbatim>\<open>GetFileList\<close> reads from the 32-byte slot at
  \<open>entryLoc e\<close>, and that slot lies in the data region of the volume, inside the image.
\<close>

definition slot_ok :: "Filesys \<Rightarrow> bool \<Rightarrow> FileEntry \<Rightarrow> bool" where
  "slot_ok fs gd e \<longleftrightarrow>
     data_start fs \<le> unat (entryLoc e)
     \<and> unat (entryLoc e) + 32 \<le> unat (TotSec (finfo fs)) * bps fs
     \<and> unat (entryLoc e) + 32 < filesys_size fs
     \<and> read_entry fs gd (entryLoc e) [] = Ret [e]"

text \<open>
  The state in which \<^verbatim>\<open>Rm\<close> lists the directory for the name \<open>nm\<close>: the file has been
  closed if it was open.
\<close>

definition closed_for :: "Filesys \<Rightarrow> bytes \<Rightarrow> Filesys" where
  "closed_for fs nm = (if \<exists>e\<in>set (openTable fs). GetShortName e = nm then Close fs [nm] else fs)"

text \<open>
  The bytes of the FAT copies, from the end of the reserved sectors to the start of the
  data region, and the four bytes of the free-cluster count in the FS information
  sector.
\<close>

definition fat_region :: "Filesys \<Rightarrow> nat set" where
  "fat_region fs = {unat (RsvdSecCnt (finfo fs)) * bps fs ..< data_start fs}"

definition count_pos :: "Filesys \<Rightarrow> nat" where
  "count_pos fs = unat (FsInfo (finfo fs)) * bps fs + 488"

definition count_region :: "Filesys \<Rightarrow> nat set" where
  "count_region fs = {count_pos fs ..< count_pos fs + 4}"

text \<open>
  The 32 bytes of the directory slot at \<open>n\<close>, and the bytes that a removal leaves in a
  slot that held \<open>old\<close>: the mark \<open>0xE5\<close>, bytes 1 to 12 of \<open>old\<close> (rest of the name,
  attribute, byte 12), zeros in bytes 13 to 19 (creation time and date, access date),
  bytes 20 and 21 of \<open>old\<close> (high cluster half), the write time \<open>wt\<close> and date \<open>wd\<close>,
  and bytes 26 to 31 of \<open>old\<close> (low cluster half, size).
\<close>

definition slot_bytes :: "Filesys \<Rightarrow> nat \<Rightarrow> 8 word list" where
  "slot_bytes fs n = map (\<lambda>j. mFilesys fs (n + j)) [0..<32]"

definition tombstone :: "8 word list \<Rightarrow> 16 word \<Rightarrow> 16 word \<Rightarrow> 8 word list" where
  "tombstone old wt wd =
     [0xe5] @ take 12 (drop 1 old) @ [0, 0, 0, 0, 0, 0, 0] @ take 2 (drop 20 old)
     @ [ucast wt, ucast (drop_bit 8 wt), ucast wd, ucast (drop_bit 8 wd)] @ drop 26 old"

section \<open>A small volume\<close>

text \<open>
  A FAT32 volume of 12 sectors of 512 bytes used to run the model: boot sector, FS
  information sector, two FATs of one sector each, and clusters 2 to 9 of one sector
  each. The root directory is cluster 2.
\<close>

definition boot_sector :: "8 word \<Rightarrow> nat \<Rightarrow> 8 word" where
  \<comment> \<open>a boot sector with the given sectors-per-cluster byte\<close>
  "boot_sector spc = (\<lambda>_. 0)
     (11 := 0x00, 12 := 0x02, 13 := spc, 14 := 2, 16 := 2, 32 := 12, 36 := 1, 44 := 2, 48 := 1,
      510 := 0x55, 511 := 0xaa)"

definition mount_fs :: "8 word \<Rightarrow> Filesys" where
  \<comment> \<open>the state after the constructor has mapped an image with that boot sector\<close>
  "mount_fs spc = \<lparr>mFilesys = boot_sector spc, filesys_size = 6144, error = False, cwd = 0,
     location = [], finfo = \<lparr>Signature = [], BytesPerSec = 0, RootEntCnt = 0,
       RootDirSector = 0, FATSz16 = 0, FATSz32 = 0, FATSz = 0, RsvdSecCnt = 0, NumFats = 0,
       SecPerClus = 0, FirstDataSec = 0, RootClus = 0, FsInfo = 0, TotSec = 0\<rparr>,
     openTable = []\<rparr>"

definition vol_info :: Fat32Info where
  "vol_info = \<lparr>Signature = [0x55, 0xaa], BytesPerSec = 512, RootEntCnt = 0,
       RootDirSector = 0, FATSz16 = 0, FATSz32 = 1, FATSz = 1, RsvdSecCnt = 2, NumFats = 2,
       SecPerClus = 1, FirstDataSec = 4, RootClus = 2, FsInfo = 1, TotSec = 12\<rparr>"

definition vol_fs :: "(nat \<Rightarrow> 8 word) \<Rightarrow> Filesys" where
  \<comment> \<open>the mounted volume with the given image bytes, in the root directory\<close>
  "vol_fs m = \<lparr>mFilesys = m, filesys_size = 6144, error = False, cwd = 2,
     location = str ''/'', finfo = vol_info, openTable = []\<rparr>"

definition nibble_mem :: "nat \<Rightarrow> 8 word" where
  \<comment> \<open>both FAT copies hold \<open>0xF0000007\<close> for cluster 3: reserved bits set, next cluster 7\<close>
  "nibble_mem = (boot_sector 1)
     (1036 := 0x07, 1037 := 0x00, 1038 := 0x00, 1039 := 0xF0,
      1548 := 0x07, 1549 := 0x00, 1550 := 0x00, 1551 := 0xF0)"

text \<open>
  The image of that volume with a root directory holding the file \<^verbatim>\<open>HELLO.TXT\<close>
  (clusters 3 and 4, with creation and access stamps), the empty file \<^verbatim>\<open>EMPTY\<close> (no
  cluster) and the directory \<^verbatim>\<open>SUB\<close> (cluster 5, holding \<^verbatim>\<open>.\<close> and \<^verbatim>\<open>..\<close>). Clusters
  6 to 9 are free; the FS information sector records 4 free clusters and the hint 6.
\<close>

definition poke :: "nat \<Rightarrow> 8 word list \<Rightarrow> (nat \<Rightarrow> 8 word) \<Rightarrow> (nat \<Rightarrow> 8 word)" where
  \<comment> \<open>the memory with the bytes \<open>bs\<close> stored from address \<open>a\<close>\<close>
  "poke a bs m = (\<lambda>i. if a \<le> i \<and> i < a + length bs then bs ! (i - a) else m i)"

definition dir_entry :: "string \<Rightarrow> 8 word \<Rightarrow> 8 word \<Rightarrow> 8 word list \<Rightarrow> 8 word list" where
  \<comment> \<open>the 32 bytes of a directory entry: name, attribute, low cluster byte, the 4 size bytes\<close>
  "dir_entry nm a l sz =
     str nm @ [a, 0x00, 0x64, 0x20, 0x6C, 0x21, 0x5A, 0x21, 0x5A, 0x00, 0x00,
               0x20, 0x6C, 0x21, 0x5A, l, 0x00] @ sz"

definition vol_fat :: "8 word list" where
  \<comment> \<open>entries 0 to 5: media, end, end (root), 4, end, end (\<^verbatim>\<open>SUB\<close>)\<close>
  "vol_fat = [0xF8, 0xFF, 0xFF, 0x0F, 0xFF, 0xFF, 0xFF, 0x0F, 0xFF, 0xFF, 0xFF, 0x0F,
              0x04, 0x00, 0x00, 0x00, 0xFF, 0xFF, 0xFF, 0x0F, 0xFF, 0xFF, 0xFF, 0x0F]"

definition vol_mem :: "nat \<Rightarrow> 8 word" where
  "vol_mem =
     poke 2048 (dir_entry ''HELLO   TXT'' 0x20 3 [0x58, 0x02, 0x00, 0x00])
    (poke 2080 (dir_entry ''EMPTY      '' 0x20 0 [0x00, 0x00, 0x00, 0x00])
    (poke 2112 (dir_entry ''SUB        '' 0x10 5 [0x00, 0x00, 0x00, 0x00])
    (poke 3584 (dir_entry ''.          '' 0x10 5 [0x00, 0x00, 0x00, 0x00])
    (poke 3616 (dir_entry ''..         '' 0x10 0 [0x00, 0x00, 0x00, 0x00])
    (poke 1024 vol_fat
    (poke 1536 vol_fat
    (poke 1000 [0x04, 0x00, 0x00, 0x00, 0x06, 0x00, 0x00, 0x00] (boot_sector 1))))))))"

text \<open>The listing of its root directory.\<close>

definition root_list :: "FileEntry list" where
  "root_list =
    [\<lparr>name = str ''HELLO   TXT'', attr = 0x20, lo = 3, hi = 0, wrtTime = 0, wrtDate = 0,
       size_fe = 600, clus = 3, entryLoc = 2048, openInfo = 0\<rparr>,
     \<lparr>name = str ''EMPTY      '', attr = 0x20, lo = 0, hi = 0, wrtTime = 0, wrtDate = 0,
       size_fe = 0, clus = 0, entryLoc = 2080, openInfo = 0\<rparr>,
     \<lparr>name = str ''SUB        '', attr = 0x10, lo = 5, hi = 0, wrtTime = 0, wrtDate = 0,
       size_fe = 0, clus = 5, entryLoc = 2112, openInfo = 0\<rparr>]"

text \<open>The listing of the directory \<^verbatim>\<open>SUB\<close>.\<close>

definition sub_list :: "FileEntry list" where
  "sub_list =
    [\<lparr>name = str ''.          '', attr = 0x10, lo = 5, hi = 0, wrtTime = 0, wrtDate = 0,
       size_fe = 0, clus = 5, entryLoc = 3584, openInfo = 0\<rparr>,
     \<lparr>name = str ''..         '', attr = 0x10, lo = 0, hi = 0, wrtTime = 0, wrtDate = 0,
       size_fe = 0, clus = 0, entryLoc = 3616, openInfo = 0\<rparr>]"

text \<open>The state after \<^verbatim>\<open>cd sub\<close>: the same volume, in the directory \<^verbatim>\<open>SUB\<close>.\<close>

definition sub_fs :: Filesys where
  "sub_fs = (vol_fs vol_mem)\<lparr>cwd := 5, location := str ''/sub''\<rparr>"

text \<open>
  The same volume with a root directory of two clusters, 2 and 9. Cluster 9 is the last
  cluster of the volume: its data ends at byte 6144, where the image ends. Clusters 6
  to 8 are free and the FS information sector records 3 free clusters.
\<close>

definition full_mem :: "nat \<Rightarrow> 8 word" where
  "full_mem =
     poke 1032 [0x09, 0x00, 0x00, 0x00]
    (poke 1544 [0x09, 0x00, 0x00, 0x00]
    (poke 1060 [0xFF, 0xFF, 0xFF, 0x0F]
    (poke 1572 [0xFF, 0xFF, 0xFF, 0x0F]
    (poke 1000 [0x03, 0x00, 0x00, 0x00] vol_mem))))"

text \<open>
  A volume of 8600000 sectors of 512 bytes (4403200000 bytes, more than 4 GiB) with 16
  sectors per cluster, 32 reserved sectors and two FATs of 4200 sectors each: the first
  FAT starts at byte 16384, the second at byte 2166784, the data at sector 8432. The
  root directory is cluster 2, a chain of one cluster, and every other cluster is free:
  the FS information sector records 536972 free clusters and the hint 523765. The data
  of cluster 523765 starts at sector 8388640, that is at byte 4294983680, which is
  \<open>2 ^ 32 + 16384\<close>; the byte there is \<open>0x5A\<close>, left by an earlier file. \<open>big_image\<close> is the
  state after the constructor has mapped the image, \<open>big_fs\<close> the mounted volume.
\<close>

definition big_info :: Fat32Info where
  "big_info = \<lparr>Signature = [0x55, 0xaa], BytesPerSec = 512, RootEntCnt = 0,
       RootDirSector = 0, FATSz16 = 0, FATSz32 = 4200, FATSz = 4200, RsvdSecCnt = 32,
       NumFats = 2, SecPerClus = 16, FirstDataSec = 8432, RootClus = 2, FsInfo = 1,
       TotSec = 8600000\<rparr>"

definition big_mem :: "nat \<Rightarrow> 8 word" where
  "big_mem =
     poke 4294983680 [0x5A]
    (poke 16384 [0xF8, 0xFF, 0xFF, 0x0F, 0xFF, 0xFF, 0xFF, 0x0F, 0xFF, 0xFF, 0xFF, 0x0F]
    (poke 2166784 [0xF8, 0xFF, 0xFF, 0x0F, 0xFF, 0xFF, 0xFF, 0x0F, 0xFF, 0xFF, 0xFF, 0x0F]
    (poke 1000 [0x8C, 0x31, 0x08, 0x00, 0xF5, 0xFD, 0x07, 0x00]
      ((\<lambda>_. 0)
         (11 := 0x00, 12 := 0x02, 13 := 16, 14 := 32, 16 := 2, 32 := 0xC0, 33 := 0x39, 34 := 0x83,
          36 := 0x68, 37 := 0x10, 44 := 2, 48 := 1, 510 := 0x55, 511 := 0xaa)))))"

definition big_image :: Filesys where
  "big_image = \<lparr>mFilesys = big_mem, filesys_size = 4403200000, error = False, cwd = 0,
     location = [], finfo = \<lparr>Signature = [], BytesPerSec = 0, RootEntCnt = 0,
       RootDirSector = 0, FATSz16 = 0, FATSz32 = 0, FATSz = 0, RsvdSecCnt = 0, NumFats = 0,
       SecPerClus = 0, FirstDataSec = 0, RootClus = 0, FsInfo = 0, TotSec = 0\<rparr>,
     openTable = []\<rparr>"

definition big_fs :: Filesys where
  "big_fs = big_image\<lparr>cwd := 2, location := str ''/'', finfo := big_info\<rparr>"

text \<open>
  The image after \<^verbatim>\<open>AllocateCluster(2)\<close> on that volume: the two FAT copies link cluster
  2 to cluster 523765 and mark 523765 as the end of the chain, the hint is 523765, the
  count is 536971, and then the 8192 bytes from 16384 are zero.
\<close>

definition big_after :: "nat \<Rightarrow> 8 word" where
  "big_after =
     (\<lambda>a. if 16384 \<le> a \<and> a < 24576 then 0
          else WriteItem (WriteItem (WriteItem (WriteItem (WriteItem (WriteItem big_mem
                 16392 4 (523765 :: 32 word)) 2166792 4 (523765 :: 32 word))
                 2111444 4 (0x0FFFFFFF :: 32 word)) 4261844 4 (0x0FFFFFFF :: 32 word))
                 1004 4 (523765 :: 32 word)) 1000 4 (536971 :: 32 word) a)"

definition noon :: tm where
  "noon = \<lparr>tm_sec = 30, tm_min = 15, tm_hour = 12, tm_mday = 30, tm_mon = 9, tm_year = 126\<rparr>"

section \<open>Image I/O: the bounds check\<close>

lemma ReadValue_Throw_iff:
  "(ReadValue fs len pos width :: ('a::len word) list res) = Throw
     \<longleftrightarrow> (width * len + pos) mod 2 ^ 64 \<ge> filesys_size fs"
  by (simp add: ReadValue_def out_of_range_def)

lemma WriteValue_Throw_iff:
  "WriteValue fs (data :: ('a::len word) list) pos width = Throw
     \<longleftrightarrow> (width * length data + pos) mod 2 ^ 64 \<ge> filesys_size fs"
  by (simp add: WriteValue_def out_of_range_def)

text \<open>
  Claim C5. The claim says that a read or write of \<open>width\<close> bytes at \<open>offset\<close> succeeds
  whenever \<open>offset + width \<le> image_size\<close>. The source's guard is \<^verbatim>\<open>>=\<close>: on an image of
  8 bytes a 4-byte read at offset 4, which ends exactly at the end of the image
  (\<open>4 + 4 \<le> 8\<close>), throws, and so does the 4-byte write there; the same access one
  byte earlier succeeds.
\<close>

theorem C5_last_bytes_refused:
  "(4::nat) + 4 \<le> filesys_size (fs\<lparr>filesys_size := 8\<rparr>)
   \<and> (ReadValue (fs\<lparr>filesys_size := 8\<rparr>) 1 4 4 :: 32 word list res) = Throw
   \<and> WriteValue (fs\<lparr>filesys_size := 8\<rparr>) [v :: 32 word] 4 4 = Throw
   \<and> (ReadValue (fs\<lparr>filesys_size := 8\<rparr>) 1 3 4 :: 32 word list res) \<noteq> Throw
   \<and> WriteValue (fs\<lparr>filesys_size := 8\<rparr>) [v :: 32 word] 3 4 \<noteq> Throw"
  by (simp add: ReadValue_Throw_iff WriteValue_Throw_iff)

text \<open>
  Claim C6. The claim says that after \<^verbatim>\<open>SetClus(c)\<close> the halves satisfy
  \<open>(hi << 16) | lo = c\<close> for every \<open>c < 2 ^ 28\<close>. For \<open>c = 0x10000\<close> the source stores
  \<open>hi = 0x1000\<close> (the shift is by 4, not 16), and the constructor that decodes an
  entry rebuilds cluster \<open>0x10000000\<close> from these halves.
\<close>

theorem C6_SetClus_halves_wrong:
  "hi (SetClus e 0x10000) = 0x1000 \<and> lo (SetClus e 0x10000) = 0
   \<and> clus (FileEntry_new n a (lo (SetClus e 0x10000)) (hi (SetClus e 0x10000)) s el) = 0x10000000
   \<and> (0x10000 :: 32 word) < 2 ^ 28"
  by (simp add: SetClus_def FileEntry_new_def mk_clus_def)

lemma upt_0_2: "[0..<2] = [0, 1]"
  by (simp add: upt_rec)

lemma upt_0_4: "[0..<4] = [0, 1, 2, 3]"
  by (simp add: upt_rec)

lemma upt_0_11: "[0..<11] = [0, 1, 2, 3, 4, 5, 6, 7, 8, 9, 10]"
  by (simp add: upt_rec)

lemma ReadItem_1: "(ReadItem m b 1 :: 'a::len word) = ucast (ucast (m b) :: 32 word)"
  by (simp add: ReadItem_def)

lemma ReadItem_Suc_0: "(ReadItem m b (Suc 0) :: 'a::len word) = ucast (ucast (m b) :: 32 word)"
  by (simp add: ReadItem_def)

lemma ReadItem_2:
  "(ReadItem m b 2 :: 'a::len word)
     = ucast (ucast (m b) :: 32 word) OR ucast (push_bit 8 (ucast (m (b + 1)) :: 32 word))"
  by (simp add: ReadItem_def upt_0_2)

lemma ReadItem_4:
  "(ReadItem m b 4 :: 'a::len word)
     = ucast (ucast (m b) :: 32 word) OR ucast (push_bit 8 (ucast (m (b + 1)) :: 32 word))
       OR ucast (push_bit 16 (ucast (m (b + 2)) :: 32 word))
       OR ucast (push_bit 24 (ucast (m (b + 3)) :: 32 word))"
  by (simp add: ReadItem_def upt_0_4 or.assoc)

lemmas ReadItem_simps = ReadItem_1 ReadItem_Suc_0 ReadItem_2 ReadItem_4

lemma WriteItem_1: "WriteItem m b 1 v = m(b := ucast (v AND 0xFF))"
  by (simp add: WriteItem_def)

lemma WriteItem_Suc_0: "WriteItem m b (Suc 0) v = m(b := ucast (v AND 0xFF))"
  by (simp add: WriteItem_def)

lemma WriteItem_2:
  "WriteItem m b 2 v = m(b := ucast (v AND 0xFF), b + 1 := ucast (drop_bit 8 v AND 0xFF))"
  by (simp add: WriteItem_def upt_0_2)

lemma WriteItem_4:
  "WriteItem m b 4 v = m(b := ucast (v AND 0xFF), b + 1 := ucast (drop_bit 8 v AND 0xFF),
      b + 2 := ucast (drop_bit 16 v AND 0xFF), b + 3 := ucast (drop_bit 24 v AND 0xFF))"
  by (simp add: WriteItem_def upt_0_4)

lemmas WriteItem_simps = WriteItem_1 WriteItem_Suc_0 WriteItem_2 WriteItem_4

lemma ReadValue1_eq:
  "ReadValue1 fs pos width
     = (if out_of_range fs 1 pos width then Throw else Ret (ReadItem (mFilesys fs) pos width))"
  by (simp add: ReadValue1_def ReadValue_def)

lemma ReadValue_2:
  "ReadValue fs 2 pos width
     = (if out_of_range fs 2 pos width then Throw
        else Ret [ReadItem (mFilesys fs) pos width, ReadItem (mFilesys fs) (pos + width) width])"
  by (simp add: ReadValue_def upt_0_2)

lemma WriteValue1_eq:
  "WriteValue1 fs v pos width
     = (if out_of_range fs 1 pos width then Throw
        else Ret (fs\<lparr>mFilesys := WriteItem (mFilesys fs) pos width v\<rparr>))"
  by (simp add: WriteValue1_def WriteValue_def)

text \<open>
  Claim C4. The claim says that mount succeeds for every sectors-per-cluster value in
  \<open>{1, 2, 4, 8, 16, 32, 64, 128}\<close> when the other checked fields are valid. The list
  of accepted values in the source misses 8: the image below (signature \<open>0x55 0xAA\<close>,
  512 bytes per sector, root-entry count 0, 16-bit FAT size 0, 12 sectors) is refused
  with 8 sectors per cluster and accepted with 4 or 16.
\<close>

theorem C4_SecPerClus_8_refused:
  "Validate (mount_fs 8) = Throw \<and> Validate (mount_fs 4) \<noteq> Throw
   \<and> Validate (mount_fs 16) \<noteq> Throw"
  by (simp add: Validate_def mount_fs_def boot_sector_def rbind_def ReadValue1_eq
        ReadValue_2 out_of_range_def ReadItem_simps Let_def)

text \<open>
  The same run read from the theorem: the image with 8 sectors per cluster is refused,
  its neighbours with 4 and 16 are mounted.
\<close>

theorem C4_SecPerClus_8_refused_witness:
  "Validate (mount_fs 8) = Throw \<and> Validate (mount_fs 4) \<noteq> Throw"
  using C4_SecPerClus_8_refused by simp

text \<open>
  Claim C1. The claim says that \<^verbatim>\<open>SetNextClus\<close> leaves the upper 4 bits of each FAT
  copy's word as they were. The source computes the combined word in \<open>entry\<close> and
  then writes \<open>value\<close>: on the small volume, with \<open>0xF0000007\<close> stored for cluster 3
  in both copies, \<^verbatim>\<open>SetNextClus(3, 5)\<close> leaves \<open>0x00000005\<close> in both, so the upper 4
  bits have changed from \<open>0xF\<close> to \<open>0\<close>.
\<close>

theorem C1_reserved_bits_cleared:
  "fat_pos vol_info 0 3 = 1036 \<and> fat_pos vol_info 1 3 = 1548
   \<and> ReadValue1 (vol_fs nibble_mem) 1036 4 = Ret (0xF0000007 :: 32 word)
   \<and> ReadValue1 (vol_fs nibble_mem) 1548 4 = Ret (0xF0000007 :: 32 word)
   \<and> (case SetNextClus (vol_fs nibble_mem) 3 5 of
        Some (Ret fs') \<Rightarrow> ReadValue1 fs' 1036 4 = Ret (0x00000005 :: 32 word)
                        \<and> ReadValue1 fs' 1548 4 = Ret (0x00000005 :: 32 word)
      | Some Throw \<Rightarrow> False | None \<Rightarrow> False)"
  by (simp add: SetNextClus_def SetNextClus_body_def fat_pos_def GetThisFatSecN_def
        GetThisFatEntOff_def vol_fs_def vol_info_def nibble_mem_def boot_sector_def rbind_def
        ReadValue1_eq WriteValue1_eq out_of_range_def ReadItem_simps WriteItem_simps
        FATMASK_def upt_0_2)

section \<open>File name validation\<close>

lemma find_first_of_list_eq:
  "find_first_of_list s cs i
     = (if \<exists>c\<in>set s. c \<in> set cs then i + length (takeWhile (\<lambda>c. c \<notin> set cs) s) else npos)"
  by (induction s arbitrary: i) auto

lemma find_first_of_0:
  "find_first_of s cs 0
     = (if \<exists>c\<in>set s. c \<in> set cs then length (takeWhile (\<lambda>c. c \<notin> set cs) s) else npos)"
  by (simp add: find_first_of_def find_first_of_list_eq)

lemma length_takeWhile_less:
  "\<exists>c\<in>set s. \<not> P c \<Longrightarrow> length (takeWhile P s) < length s"
  by (induction s) auto

lemma sub_mod_aux: "b \<le> a \<Longrightarrow> a < M \<Longrightarrow> (a + M - b) mod M = a - (b::nat)"
proof -
  assume le: "b \<le> a" and lt: "a < M"
  have "a + M - b = (a - b) + M"
    using le by (metis Nat.add_diff_assoc2)
  then have "(a + M - b) mod M = ((a - b) + M) mod M" by (simp only:)
  also have "\<dots> = (a - b) mod M" by (rule mod_add_self2)
  also have "\<dots> = a - b" using lt by (intro mod_less less_imp_diff_less)
  finally show ?thesis .
qed

lemma sub_size_t_le: "b \<le> a \<Longrightarrow> a < 2 ^ 64 \<Longrightarrow> sub_size_t a b = a - b"
  unfolding sub_size_t_def by (rule sub_mod_aux)

lemma sub_size_t_npos: "b \<le> a \<Longrightarrow> a < npos \<Longrightarrow> sub_size_t a b = a - b"
  by (rule sub_size_t_le) (simp_all add: npos_def)

lemma set_str_dot: "set (str ''.'') = {0x2E}"
  by (simp add: str_def)

lemma ValidateFileName_invalid:
  assumes len: "length nm < npos" and bad: "\<exists>c\<in>set nm. c \<in> set invalid_chars"
  shows "ValidateFileName nm = Throw"
proof -
  from bad have "length (takeWhile (\<lambda>c. c \<notin> set invalid_chars) nm) < length nm"
    by (intro length_takeWhile_less) auto
  with len bad have "find_first_of nm invalid_chars 0 \<noteq> npos"
    by (simp add: find_first_of_0)
  then show ?thesis by (simp add: ValidateFileName_def)
qed

lemma ValidateFileName_nodot:
  assumes len: "length nm < npos" and ok: "\<forall>c\<in>set nm. c \<notin> set invalid_chars"
    and nodot: "0x2E \<notin> set nm"
  shows "ValidateFileName nm =
     (if nm = [] \<or> length nm > 8 then Throw else Ret (c_string (map (pad_at nm) [0..<11])))"
proof -
  from ok have inv: "find_first_of nm invalid_chars 0 = npos"
    by (simp add: find_first_of_0)
  from nodot have dp: "find_first_of nm (str ''.'') 0 = npos"
    by (simp add: find_first_of_0 set_str_dot)
  have wrap: "npos = sub_size_t (length nm) (Suc 0) \<longleftrightarrow> nm = []"
  proof (cases nm)
    case Nil
    then show ?thesis by (simp add: npos_def sub_size_t_def)
  next
    case (Cons a as)
    then have "Suc 0 \<le> length nm" by simp
    then have "sub_size_t (length nm) (Suc 0) = length nm - Suc 0"
      using len by (rule sub_size_t_npos)
    with len Cons show ?thesis by simp
  qed
  have np0: "npos \<noteq> 0" by (simp add: npos_def)
  show ?thesis
    unfolding ValidateFileName_def Let_def inv dp using wrap np0 by simp
qed

lemma ValidateFileName_dot:
  assumes len: "length nm < npos" and ok: "\<forall>c\<in>set nm. c \<notin> set invalid_chars"
    and dot: "0x2E \<in> set nm" and d: "d = length (takeWhile (\<lambda>c. c \<noteq> 0x2E) nm)"
  shows "ValidateFileName nm =
       (if d = 0 \<or> d = length nm - 1 \<or> length nm - (d + 1) > 3 then Throw
        else Ret (c_string (map (pad_at (take d nm)) [0..<8]
                   @ map (\<lambda>i. pad_at (drop (d + 1) nm) (i - 8)) [8..<11])))"
proof -
  from ok have inv: "find_first_of nm invalid_chars 0 = npos"
    by (simp add: find_first_of_0)
  have dlt: "d < length nm"
    unfolding d using dot by (intro length_takeWhile_less) auto
  have dp: "find_first_of nm (str ''.'') 0 = d"
    using dot by (simp add: find_first_of_0 set_str_dot d)
  have dn: "d \<noteq> npos" using dlt len by simp
  have "Suc 0 \<le> length nm" using dlt by simp
  then have "sub_size_t (length nm) (Suc 0) = length nm - Suc 0"
    using len by (rule sub_size_t_npos)
  then have l1: "sub_size_t (length nm) (Suc 0) = length nm - 1" by simp
  have "Suc d \<le> length nm" using dlt by simp
  then have "sub_size_t (length nm) (Suc d) = length nm - Suc d"
    using len by (rule sub_size_t_npos)
  then have l2: "sub_size_t (length nm) (Suc d) = length nm - (d + 1)" by simp
  show ?thesis
    unfolding ValidateFileName_def Let_def inv dp using dn l1 l2 by simp
qed


lemma upt_0_8: "[0..<8] = [0, 1, 2, 3, 4, 5, 6, 7]"
  by (simp add: upt_rec)

lemma upt_0_3: "[0..<3] = [0, 1, 2]"
  by (simp add: upt_rec)

lemma map_pad_at:
  "length s \<le> n \<Longrightarrow> map (pad_at s) [0..<n] = s @ replicate (n - length s) 0x20"
  by (rule nth_equalityI) (auto simp: pad_at_def nth_append)

lemma map_pad_at_ext:
  "map (\<lambda>i. pad_at p (i - 8)) [8..<11] = map (pad_at p) [0..<3]"
  by (simp add: upt_0_3)

lemma c_string_id: "0 \<notin> set xs \<Longrightarrow> c_string xs = xs"
  by (auto simp: c_string_def)

lemma takeWhile_butlast:
  "xs \<noteq> [] \<Longrightarrow> last xs = x \<Longrightarrow> count_list xs x \<le> 1
     \<Longrightarrow> takeWhile (\<lambda>c. c \<noteq> x) xs = butlast xs"
proof (induction xs)
  case Nil
  then show ?case by simp
next
  case (Cons a as)
  show ?case
  proof (cases "as = []")
    case True
    with Cons.prems show ?thesis by simp
  next
    case False
    with Cons.prems have lx: "last as = x" by simp
    with False have "x \<in> set as" using last_in_set by blast
    then have "count_list as x \<ge> 1"
      by (metis count_list_0_iff less_one not_le)
    with Cons.prems have ax: "a \<noteq> x" and c: "count_list as x \<le> 1"
      by (auto split: if_splits)
    from Cons.IH [OF False lx c] ax False show ?thesis by simp
  qed
qed

lemma length_after_dot:
  "length (drop 1 (dropWhile P xs)) = length xs - (length (takeWhile P xs) + 1)"
  by (simp add: dropWhile_eq_drop)

lemma VFN_first_dot:
  assumes len: "length nm < npos" and ne: "nm \<noteq> []" and hd: "hd nm = 0x2E"
  shows "ValidateFileName nm = Throw"
proof (cases "\<exists>c\<in>set nm. c \<in> set invalid_chars")
  case True
  with len show ?thesis by (rule ValidateFileName_invalid)
next
  case False
  from ne hd have dot: "0x2E \<in> set nm" by (cases nm) auto
  from ne hd have d: "0 = length (takeWhile (\<lambda>c. c \<noteq> 0x2E) nm)" by (cases nm) auto
  from False have ok: "\<forall>c\<in>set nm. c \<notin> set invalid_chars" by blast
  show ?thesis using ValidateFileName_dot [OF len ok dot d] by simp
qed

lemma VFN_last_dot:
  assumes len: "length nm < npos" and ne: "nm \<noteq> []" and last: "last nm = 0x2E"
    and one: "count_list nm 0x2E \<le> 1"
  shows "ValidateFileName nm = Throw"
proof (cases "\<exists>c\<in>set nm. c \<in> set invalid_chars")
  case True
  with len show ?thesis by (rule ValidateFileName_invalid)
next
  case False
  from ne last have dot: "0x2E \<in> set nm" using last_in_set by metis
  have "takeWhile (\<lambda>c. c \<noteq> 0x2E) nm = butlast nm"
    using ne last one by (rule takeWhile_butlast)
  then have d: "length nm - 1 = length (takeWhile (\<lambda>c. c \<noteq> 0x2E) nm)" by simp
  from False have ok: "\<forall>c\<in>set nm. c \<notin> set invalid_chars" by blast
  show ?thesis using ValidateFileName_dot [OF len ok dot d] by simp
qed

lemma VFN_long_base:
  assumes len: "length nm < npos" and nodot: "0x2E \<notin> set nm" and long: "length nm > 8"
  shows "ValidateFileName nm = Throw"
proof (cases "\<exists>c\<in>set nm. c \<in> set invalid_chars")
  case True
  with len show ?thesis by (rule ValidateFileName_invalid)
next
  case False
  then have ok: "\<forall>c\<in>set nm. c \<notin> set invalid_chars" by blast
  show ?thesis using ValidateFileName_nodot [OF len ok nodot] long by simp
qed

lemma VFN_long_ext:
  assumes len: "length nm < npos" and dot: "0x2E \<in> set nm"
    and long: "length (drop 1 (dropWhile (\<lambda>c. c \<noteq> 0x2E) nm)) > 3"
  shows "ValidateFileName nm = Throw"
proof (cases "\<exists>c\<in>set nm. c \<in> set invalid_chars")
  case True
  with len show ?thesis by (rule ValidateFileName_invalid)
next
  case False
  then have ok: "\<forall>c\<in>set nm. c \<notin> set invalid_chars" by blast
  from long have "length nm - (length (takeWhile (\<lambda>c. c \<noteq> 0x2E) nm) + 1) > 3"
    by (simp only: length_after_dot)
  then show ?thesis using ValidateFileName_dot [OF len ok dot refl] by simp
qed

lemma VFN_result:
  assumes len: "length nm < npos" and acc: "ValidateFileName nm \<noteq> Throw"
    and base: "length (takeWhile (\<lambda>c. c \<noteq> 0x2E) nm) \<le> 8" and nul: "0 \<notin> set nm"
  shows "ValidateFileName nm =
     Ret (takeWhile (\<lambda>c. c \<noteq> 0x2E) nm
          @ replicate (8 - length (takeWhile (\<lambda>c. c \<noteq> 0x2E) nm)) 0x20
          @ drop 1 (dropWhile (\<lambda>c. c \<noteq> 0x2E) nm)
          @ replicate (3 - length (drop 1 (dropWhile (\<lambda>c. c \<noteq> 0x2E) nm))) 0x20)"
proof -
  from len acc have ok: "\<forall>c\<in>set nm. c \<notin> set invalid_chars"
    using ValidateFileName_invalid by blast
  show ?thesis
  proof (cases "0x2E \<in> set nm")
    case False
    then have tw: "takeWhile (\<lambda>c. c \<noteq> 0x2E) nm = nm" by auto
    from False have dw: "dropWhile (\<lambda>c. c \<noteq> 0x2E) nm = []" by auto
    from acc ValidateFileName_nodot [OF len ok False]
    have l8: "length nm \<le> 8"
      and v: "ValidateFileName nm = Ret (c_string (map (pad_at nm) [0..<11]))"
      by (auto split: if_splits)
    from l8 have "map (pad_at nm) [0..<11] = nm @ replicate (11 - length nm) 0x20"
      by (intro map_pad_at) simp
    also have "\<dots> = nm @ replicate (8 - length nm) 0x20 @ replicate 3 0x20"
    proof -
      from l8 have "11 - length nm = (8 - length nm) + 3" by simp
      then show ?thesis by (simp only: replicate_add)
    qed
    finally have m: "map (pad_at nm) [0..<11]
        = nm @ replicate (8 - length nm) 0x20 @ replicate 3 0x20" .
    have "c_string (nm @ replicate (8 - length nm) 0x20 @ replicate 3 0x20)
        = nm @ replicate (8 - length nm) 0x20 @ replicate 3 0x20"
      using nul by (intro c_string_id) auto
    with v m show ?thesis by (simp only: tw dw drop.simps list.size replicate_add minus_nat.diff_0 append_Nil2 append_Nil)
  next
    case True
    define d where "d = length (takeWhile (\<lambda>c. c \<noteq> (0x2E :: 8 word)) nm)"
    define ext where "ext = drop 1 (dropWhile (\<lambda>c. c \<noteq> (0x2E :: 8 word)) nm)"
    have ext_eq: "ext = drop (d + 1) nm"
      by (simp add: ext_def d_def dropWhile_eq_drop)
    have base_eq: "takeWhile (\<lambda>c. c \<noteq> 0x2E) nm = take d nm"
      unfolding d_def by (rule takeWhile_eq_take)
    from acc ValidateFileName_dot [OF len ok True d_def]
    have e3: "length nm - (d + 1) \<le> 3"
      and v: "ValidateFileName nm = Ret (c_string (map (pad_at (take d nm)) [0..<8]
                   @ map (\<lambda>i. pad_at (drop (d + 1) nm) (i - 8)) [8..<11]))"
      by (auto split: if_splits)
    from base have d8: "d \<le> 8" by (simp add: d_def)
    have m1: "map (pad_at (take d nm)) [0..<8]
        = take d nm @ replicate (8 - length (take d nm)) 0x20"
      using d8 by (intro map_pad_at) simp
    have "map (pad_at ext) [0..<3] = ext @ replicate (3 - length ext) 0x20"
      using e3 by (intro map_pad_at) (simp add: ext_eq)
    then have m2: "map (\<lambda>i. pad_at (drop (d + 1) nm) (i - 8)) [8..<11]
        = ext @ replicate (3 - length ext) 0x20"
      by (simp only: map_pad_at_ext ext_eq)
    have s1: "set (take d nm) \<subseteq> set nm" by (rule set_take_subset)
    have s2: "set ext \<subseteq> set nm" unfolding ext_eq by (rule set_drop_subset)
    have "c_string (take d nm @ replicate (8 - length (take d nm)) 0x20
                    @ ext @ replicate (3 - length ext) 0x20)
        = take d nm @ replicate (8 - length (take d nm)) 0x20
                    @ ext @ replicate (3 - length ext) 0x20"
      using nul s1 s2 by (intro c_string_id) auto
    with v m1 m2 show ?thesis
      by (simp only: base_eq ext_def [symmetric] append_assoc)
  qed
qed


lemmas VFN_eval = upt_0_11 ValidateFileName_def find_first_of_def invalid_chars_def str_def npos_def
  sub_size_t_def pad_at_def c_string_def upt_0_8 Let_def

text \<open>
  What \<^verbatim>\<open>ValidateFileName\<close> does. It refuses every name that contains a space
  or one of \<^verbatim>\<open>/ " * + ` - ; : < > = ?\<close>, that starts with a dot, whose only dot is its
  last character, that has no dot and more than 8 characters, or whose part after the
  first dot has more than 3 characters. For an accepted name with at most one dot, a
  base of at most 8 characters and no NUL character it returns 11 bytes: the base
  padded with spaces to 8 and the extension padded with spaces to 3, every character
  as it was given (nothing is turned to upper case). Names are shorter than
  \<^verbatim>\<open>npos\<close>, as every \<^verbatim>\<open>std::string\<close> is.
\<close>

lemma ValidateFileName_cases:
  assumes len: "length nm < npos"
  shows "((\<exists>c\<in>set nm. c \<in> set invalid_chars) \<longrightarrow> ValidateFileName nm = Throw)
    \<and> (nm \<noteq> [] \<and> hd nm = 0x2E \<longrightarrow> ValidateFileName nm = Throw)
    \<and> (nm \<noteq> [] \<and> last nm = 0x2E \<and> count_list nm 0x2E \<le> 1 \<longrightarrow> ValidateFileName nm = Throw)
    \<and> (0x2E \<notin> set nm \<and> length nm > 8 \<longrightarrow> ValidateFileName nm = Throw)
    \<and> (0x2E \<in> set nm \<and> length (drop 1 (dropWhile (\<lambda>c. c \<noteq> 0x2E) nm)) > 3
          \<longrightarrow> ValidateFileName nm = Throw)
    \<and> (ValidateFileName nm \<noteq> Throw \<and> count_list nm 0x2E \<le> 1
         \<and> length (takeWhile (\<lambda>c. c \<noteq> 0x2E) nm) \<le> 8 \<and> 0 \<notin> set nm
          \<longrightarrow> ValidateFileName nm =
               Ret (takeWhile (\<lambda>c. c \<noteq> 0x2E) nm
                    @ replicate (8 - length (takeWhile (\<lambda>c. c \<noteq> 0x2E) nm)) 0x20
                    @ drop 1 (dropWhile (\<lambda>c. c \<noteq> 0x2E) nm)
                    @ replicate (3 - length (drop 1 (dropWhile (\<lambda>c. c \<noteq> 0x2E) nm))) 0x20))"
  using ValidateFileName_invalid [OF len] VFN_first_dot [OF len] VFN_last_dot [OF len]
    VFN_long_base [OF len] VFN_long_ext [OF len] VFN_result [OF len]
  by blast

lemma ValidateFileName_cases_examples:
  "ValidateFileName (str ''a b'') = Throw
   \<and> ValidateFileName (str ''.ab'') = Throw
   \<and> ValidateFileName (str ''ab.'') = Throw
   \<and> ValidateFileName (str ''abcdefghi'') = Throw
   \<and> ValidateFileName (str ''a.bcde'') = Throw
   \<and> ValidateFileName (str ''ab.c'') = Ret (str ''ab      c  '')"
proof -
  have a: "ValidateFileName (str ''ab.c'') \<noteq> Throw"
    by (simp add: VFN_eval)
  have 1: "ValidateFileName (str ''a b'') = Throw"
    using ValidateFileName_cases [of "str ''a b''"]
    by (simp add: str_def npos_def invalid_chars_def)
  have 2: "ValidateFileName (str ''.ab'') = Throw"
    using ValidateFileName_cases [of "str ''.ab''"]
    by (simp add: str_def npos_def)
  have 3: "ValidateFileName (str ''ab.'') = Throw"
    using ValidateFileName_cases [of "str ''ab.''"]
    by (simp add: str_def npos_def)
  have 4: "ValidateFileName (str ''abcdefghi'') = Throw"
    using ValidateFileName_cases [of "str ''abcdefghi''"]
    by (simp add: str_def npos_def)
  have 5: "ValidateFileName (str ''a.bcde'') = Throw"
    using ValidateFileName_cases [of "str ''a.bcde''"]
    by (simp add: str_def npos_def)
  have len: "length (str ''ab.c'') < npos"
    by (simp add: str_def npos_def)
  have r6: "replicate 6 x = [x, x, x, x, x, x]" and r2: "replicate 2 x = [x, x]" for x :: "8 word"
    by (simp_all add: numeral_eq_Suc)
  have 6: "ValidateFileName (str ''ab.c'') = Ret (str ''ab      c  '')"
    using ValidateFileName_cases [OF len] a
    by (simp add: str_def r6 r2)
  from 1 2 3 4 5 6 show ?thesis by blast
qed

text \<open>
  Claim C8. The claim says that \<^verbatim>\<open>ValidateFileName\<close> refuses the backslash, more than
  one dot, a dot as last character and a base longer than 8, and that it returns the
  upper-cased 11-byte form. The source's set of refused characters is the literal
  \<^verbatim>\<open>"/ \"*+`-;:<>=?"\<close>, which holds the double quote and no backslash; only the first
  dot is looked at; the length of the base is checked only when the name has no dot;
  and nothing is turned to upper case. So the name \<^verbatim>\<open>a\b\<close> is accepted; \<^verbatim>\<open>ab.c\<close> is
  returned in lower case; \<^verbatim>\<open>a.b.c\<close> (two dots) and \<^verbatim>\<open>a..\<close> (a dot as last character)
  are accepted; and \<^verbatim>\<open>abcdefghij.c\<close> (a base of 10) is accepted, its base cut to 8.
\<close>

theorem C8_refused_names_accepted:
  "ValidateFileName (str [CHR ''a'', CHR 0x5C, CHR ''b''])
     = Ret (str [CHR ''a'', CHR 0x5C, CHR ''b'', CHR '' '', CHR '' '', CHR '' '', CHR '' '',
                 CHR '' '', CHR '' '', CHR '' '', CHR '' ''])
   \<and> ValidateFileName (str ''ab.c'') = Ret (str ''ab      c  '')
   \<and> map toupper (str ''ab      c  '') = str ''AB      C  ''
   \<and> str ''ab      c  '' \<noteq> str ''AB      C  ''
   \<and> ValidateFileName (str ''a.b.c'') = Ret (str ''a       b.c'')
   \<and> ValidateFileName (str ''a..'') = Ret (str ''a       .  '')
   \<and> ValidateFileName (str ''abcdefghij.c'') = Ret (str ''abcdefghc  '')"
  by (simp add: VFN_eval toupper_def)

section \<open>Running the model on the small volume\<close>

lemma upt_0_16: "[0..<16] = [0, 1, 2, 3, 4, 5, 6, 7, 8, 9, 10, 11, 12, 13, 14, 15]"
  by (simp add: upt_rec)

lemma byte_ucast_id: "(ucast (ucast (b :: 8 word) :: 32 word) :: 8 word) = b"
  by (rule bit_word_eqI) (auto simp: bit_simps dest: bit_imp_le_length)

lemma ReadValue_11:
  "(ReadValue fs 11 pos (Suc 0) :: 8 word list res)
     = (if out_of_range fs 11 pos 1 then Throw
        else Ret (map (\<lambda>i. mFilesys fs (pos + i)) [0..<11]))"
  by (simp add: ReadValue_def ReadItem_Suc_0 byte_ucast_id)

lemmas vol_defs = vol_fs_def vol_info_def vol_mem_def poke_def dir_entry_def vol_fat_def
  str_def boot_sector_def

lemmas io_eval = ReadValue1_eq ReadValue_11 WriteValue1_eq out_of_range_def ReadItem_simps
  WriteItem_simps rbind_def upt_0_11

lemmas entry_eval = read_entry_def LONG_def RDONLY_def HIDDEN_def SYS_def VOLID_def
  DEALLOC_def DIRECT_def FileEntry_copy_def FileEntry_new_def mk_clus_def c_string_def

lemmas fat_eval = GetNextClus_def GetThisFatSecN_def GetThisFatEntOff_def
  GetFirstSectorOfClus_def FATMASK_def FATEND_def

lemma vol_root_listing: "GetFileList (vol_fs vol_mem) 2 False = Some (Ret root_list)"
  unfolding GetFileList_def
  apply (subst GetFileList_loop.simps)
  apply (simp add: vol_defs io_eval entry_eval fat_eval upt_0_16 root_list_def)
  done

text \<open>
  \<^verbatim>\<open>Cd\<close> catches the exception of \<^verbatim>\<open>NavToDir\<close> and returns with the state it was given.
\<close>

lemma Cd_failed_navigation:
  assumes "NavToDir fs (ParseAddress target) 0 (length (ParseAddress target)) = Some Throw"
  shows "Cd fs [target] = Some (Ret fs)"
  using assms by (simp add: Cd_def Let_def)

lemma parse_nodir: "ParseAddress (str ''nodir'') = [str ''nodir'']"
  by (simp add: ParseAddress_def str_def tolower_def find_first_of_def npos_def Let_def)


lemma vol_cwd: "cwd (vol_fs m) = 2" and vol_finfo: "finfo (vol_fs m) = vol_info"
  by (simp_all add: vol_fs_def)

section \<open>Reading and writing the image\<close>

lemma ucast_and_FF: "(ucast ((x :: 'a::len word) AND 0xFF) :: 8 word) = ucast x"
proof -
  have "x AND 0xFF = x AND mask 8" by (simp add: mask_eq_decr_exp)
  then show ?thesis
    by (simp only:) (auto simp: bit_simps intro!: bit_word_eqI dest: bit_imp_le_length)
qed

lemma WriteItem_apply:
  "WriteItem m b w (v :: 'a::len word) a
     = (if b \<le> a \<and> a < b + w then ucast (drop_bit (8 * (a - b)) v) else m a)"
proof (induction w arbitrary: a)
  case 0
  then show ?case by (auto simp add: WriteItem_def)
next
  case (Suc w)
  have "WriteItem m b (Suc w) v = (WriteItem m b w v)(b + w := ucast (drop_bit (8 * w) v))"
    by (simp add: WriteItem_def ucast_and_FF)
  then show ?case using Suc by (auto simp: less_Suc_eq)
qed

lemma ReadItem_cong:
  "(\<And>p. p < w \<Longrightarrow> m (b + p) = m' (b + p)) \<Longrightarrow> (ReadItem m b w :: 'a::len word) = ReadItem m' b w"
proof (induction w)
  case 0
  then show ?case by (simp add: ReadItem_def)
next
  case (Suc w)
  have *: "(ReadItem m b (Suc w) :: 'a word)
        = ReadItem m b w OR ucast (push_bit (8 * w) (ucast (m (b + w)) :: 32 word))" for m
    by (simp add: ReadItem_def)
  from Suc show ?case by (simp add: *)
qed

lemma ReadItem_WriteItem_other:
  "pos + w' \<le> b \<or> b + w \<le> pos
    \<Longrightarrow> (ReadItem (WriteItem m b w (v :: 'b::len word)) pos w' :: 'a::len word) = ReadItem m pos w'"
  by (rule ReadItem_cong) (auto simp: WriteItem_apply)

lemma word32_of_bytes:
  "ucast (ucast (v :: 32 word) :: 8 word) OR push_bit 8 (ucast (ucast (drop_bit 8 v) :: 8 word))
     OR push_bit 16 (ucast (ucast (drop_bit 16 v) :: 8 word))
     OR push_bit 24 (ucast (ucast (drop_bit 24 v) :: 8 word)) = v"
  apply (rule bit_word_eqI)
  apply (simp add: bit_simps le_add_diff_inverse cong: conj_cong)
  apply (auto simp: not_less)
  done

lemma ReadItem_WriteItem_4:
  "(ReadItem (WriteItem m b 4 (v :: 32 word)) b 4 :: 32 word) = v"
  by (simp add: ReadItem_4 WriteItem_apply word32_of_bytes)

section \<open>Layout of a well-formed volume\<close>

lemma unat_ucast_16_32: "unat (ucast (b :: 16 word) :: 32 word) = unat b"
proof -
  have "unat b < 2 ^ 16" using unsigned_less [of b] by simp
  then have "unat b < 2 ^ 32" by simp
  then show ?thesis by (simp add: unsigned_ucast_eq take_bit_nat_eq_self)
qed

lemma unat_add32: "unat a + unat b < 2 ^ 32 \<Longrightarrow> unat (a + b :: 32 word) = unat a + unat b"
  using unat_add_lem [of a b] by simp

lemma unat_mult32: "unat a * unat b < 2 ^ 32 \<Longrightarrow> unat (a * b :: 32 word) = unat a * unat b"
  using unat_mult_lem [of a b] by simp

lemma unat_of_nat32: "i < 2 ^ 32 \<Longrightarrow> unat (of_nat i :: 32 word) = i"
  by (simp add: unat_of_nat)


lemma fat_layout_nat:
  fixes i N n F B R :: nat
  assumes i: "i < N" and fit: "4 * (n + 1) \<le> F * B"
  shows "(R + (4 * n) div B + i * F) * B + (4 * n) mod B = (R + i * F) * B + 4 * n"
    and "R + (4 * n) div B + i * F < R + N * F"
    and "(R + i * F) * B + 4 * n + 4 \<le> (R + N * F) * B"
proof -
  show "(R + (4 * n) div B + i * F) * B + (4 * n) mod B = (R + i * F) * B + 4 * n"
    by (simp add: algebra_simps)
  from fit have "4 * n < F * B" by simp
  then have q: "(4 * n) div B < F" by (rule less_mult_imp_div_less)
  from i have "Suc i * F \<le> N * F" by (intro mult_le_mono1) simp
  then have le: "i * F + F \<le> N * F" by simp
  with q show "R + (4 * n) div B + i * F < R + N * F" by linarith
  from le have "(i * F + F) * B \<le> (N * F) * B" by (rule mult_le_mono1)
  then have "i * F * B + F * B \<le> N * F * B" by (simp add: algebra_simps)
  with fit show "(R + i * F) * B + 4 * n + 4 \<le> (R + N * F) * B"
    by (simp add: algebra_simps)
qed

lemma wf_volumeD:
  assumes "wf_volume fs"
  shows "512 \<le> bps fs" and "0 < unat (SecPerClus (finfo fs))"
    and "0 < unat (NumFats (finfo fs))" and "unat (NumFats (finfo fs)) \<le> 255"
    and "unat (FirstDataSec (finfo fs))
         = unat (RsvdSecCnt (finfo fs)) + unat (NumFats (finfo fs)) * unat (FATSz (finfo fs))"
    and "unat (FirstDataSec (finfo fs)) \<le> unat (TotSec (finfo fs))"
    and "unat (FsInfo (finfo fs)) < unat (RsvdSecCnt (finfo fs))"
    and "4 * (unat (GetEndOfFat (finfo fs)) + 1) \<le> unat (FATSz (finfo fs)) * bps fs"
    and "unat (TotSec (finfo fs)) * bps fs < 2 ^ 32"
    and "unat (TotSec (finfo fs)) * bps fs \<le> filesys_size fs"
  using assms by (simp_all add: wf_volume_def)

lemma data_start_le:
  assumes wf: "wf_volume fs"
  shows "data_start fs \<le> unat (TotSec (finfo fs)) * bps fs" and "data_start fs < 2 ^ 32"
    and "data_start fs \<le> filesys_size fs"
proof -
  show a: "data_start fs \<le> unat (TotSec (finfo fs)) * bps fs"
    unfolding data_start_def using wf_volumeD(6) [OF wf] by (rule mult_le_mono1)
  from a wf_volumeD(9) [OF wf] show "data_start fs < 2 ^ 32" by simp
  from a wf_volumeD(10) [OF wf] show "data_start fs \<le> filesys_size fs" by simp
qed

lemma fat_pos_eq:
  assumes wf: "wf_volume fs" and i: "i < unat (NumFats (finfo fs))"
    and n: "n \<le> GetEndOfFat (finfo fs)"
  shows "fat_pos (finfo fs) (of_nat i) n
           = (unat (RsvdSecCnt (finfo fs)) + i * unat (FATSz (finfo fs))) * bps fs + 4 * unat n"
    and "fat_pos (finfo fs) (of_nat i) n + 4 \<le> data_start fs"
proof -
  define B where "B = bps fs"
  define R where "R = unat (RsvdSecCnt (finfo fs))"
  define N where "N = unat (NumFats (finfo fs))"
  define F where "F = unat (FATSz (finfo fs))"
  define k where "k = unat n"
  note w = wf_volumeD [OF wf, folded B_def R_def N_def F_def]
  have D: "data_start fs = (R + N * F) * B"
    by (simp add: data_start_def w(5) B_def)
  have lim: "(R + N * F) * B < 2 ^ 32"
    using data_start_le(2) [OF wf] by (simp add: D)
  from n have "k \<le> unat (GetEndOfFat (finfo fs))"
    by (simp add: k_def word_le_nat_alt)
  with w(8) have fit: "4 * (k + 1) \<le> F * B" by simp
  from i have i': "i < N" by (simp add: N_def)
  note L = fat_layout_nat [OF i' fit, of R]
  have B': "unat (ucast (BytesPerSec (finfo fs)) :: 32 word) = B"
    by (simp add: unat_ucast_16_32 B_def bps_def)
  have Bpos: "0 < B" using w(1) by simp
  have sec: "R + (4 * k) div B + i * F < 2 ^ 32"
  proof -
    have "R + (4 * k) div B + i * F \<le> (R + (4 * k) div B + i * F) * B"
      using Bpos by simp
    also have "\<dots> < (R + N * F) * B"
      using L(2) Bpos by simp
    finally show ?thesis using lim by (rule less_trans)
  qed
  have n4: "unat (n * 4) = 4 * k"
  proof -
    have "4 * k < 2 ^ 32" using L(3) lim by linarith
    then have "unat n * unat (4 :: 32 word) < 2 ^ 32" by (simp add: k_def)
    then have "unat (n * 4) = unat n * unat (4 :: 32 word)" by (rule unat_mult32)
    then show ?thesis by (simp add: k_def)
  qed
  have q: "unat ((n * 4) div ucast (BytesPerSec (finfo fs))) = (4 * k) div B"
    by (simp add: unat_div n4 B')
  have r: "unat (GetThisFatEntOff (finfo fs) n) = (4 * k) mod B"
    by (simp add: GetThisFatEntOff_def unat_mod n4 B')
  have iw: "unat (of_nat i :: 32 word) = i"
    using i w(4) by (intro unat_of_nat32) (simp add: N_def)
  have iF: "unat (of_nat i * FATSz (finfo fs)) = i * F"
  proof -
    have "i * F < 2 ^ 32" using sec by linarith
    then have "unat (of_nat i :: 32 word) * unat (FATSz (finfo fs)) < 2 ^ 32"
      by (simp add: iw F_def)
    then show ?thesis using unat_mult32 iw F_def by metis
  qed
  have s1: "unat (GetThisFatSecN (finfo fs) n) = R + (4 * k) div B"
  proof -
    have "unat (RsvdSecCnt (finfo fs)) + unat ((n * 4) div ucast (BytesPerSec (finfo fs))) < 2 ^ 32"
      using sec by (simp add: q R_def)
    then show ?thesis
      unfolding GetThisFatSecN_def by (simp add: unat_add32 q R_def)
  qed
  have s2: "unat (GetThisFatSecN (finfo fs) n + of_nat i * FATSz (finfo fs))
              = R + (4 * k) div B + i * F"
  proof -
    have "unat (GetThisFatSecN (finfo fs) n) + unat (of_nat i * FATSz (finfo fs)) < 2 ^ 32"
      using sec by (simp add: s1 iF)
    then show ?thesis by (simp add: unat_add32 s1 iF)
  qed
  have sB: "(R + (4 * k) div B + i * F) * B + (4 * k) mod B < 2 ^ 32"
    using L(1) L(3) lim by linarith
  have s3: "unat ((GetThisFatSecN (finfo fs) n + of_nat i * FATSz (finfo fs))
                    * ucast (BytesPerSec (finfo fs)))
              = (R + (4 * k) div B + i * F) * B"
  proof -
    have "unat (GetThisFatSecN (finfo fs) n + of_nat i * FATSz (finfo fs))
            * unat (ucast (BytesPerSec (finfo fs)) :: 32 word) < 2 ^ 32"
      using sB by (simp add: s2 B')
    then show ?thesis by (simp add: unat_mult32 s2 B')
  qed
  have pos: "fat_pos (finfo fs) (of_nat i) n = (R + (4 * k) div B + i * F) * B + (4 * k) mod B"
  proof -
    have "unat ((GetThisFatSecN (finfo fs) n + of_nat i * FATSz (finfo fs))
                    * ucast (BytesPerSec (finfo fs)))
           + unat (GetThisFatEntOff (finfo fs) n) < 2 ^ 32"
      using sB by (simp add: s3 r)
    then show ?thesis
      unfolding fat_pos_def by (simp add: unat_add32 s3 r)
  qed
  show "fat_pos (finfo fs) (of_nat i) n
           = (unat (RsvdSecCnt (finfo fs)) + i * unat (FATSz (finfo fs))) * bps fs + 4 * unat n"
    using pos L(1) by (simp add: R_def F_def B_def k_def)
  show "fat_pos (finfo fs) (of_nat i) n + 4 \<le> data_start fs"
    using pos L(1) L(3) by (simp add: D)
qed


lemma unat_bps32: "unat (ucast (BytesPerSec (finfo fs)) :: 32 word) = bps fs"
  by (simp add: unat_ucast_16_32 bps_def)

lemma fsinfo_pos:
  assumes wf: "wf_volume fs"
  shows "unat (FsInfo (finfo fs) * ucast (BytesPerSec (finfo fs)) + 488)
           = unat (FsInfo (finfo fs)) * bps fs + 488"
    and "unat (ucast (BytesPerSec (finfo fs)) * FsInfo (finfo fs) + 492)
           = unat (FsInfo (finfo fs)) * bps fs + 492"
    and "unat (FsInfo (finfo fs)) * bps fs + 496 \<le> unat (RsvdSecCnt (finfo fs)) * bps fs"
    and "unat (RsvdSecCnt (finfo fs)) * bps fs \<le> data_start fs"
proof -
  define B where "B = bps fs"
  define R where "R = unat (RsvdSecCnt (finfo fs))"
  define I where "I = unat (FsInfo (finfo fs))"
  note w = wf_volumeD [OF wf, folded B_def R_def I_def]
  have "Suc I * B \<le> R * B" using w(7) by (intro mult_le_mono1) simp
  then have a: "I * B + B \<le> R * B" by simp
  with w(1) show c: "I * B + 496 \<le> R * B" by simp
  have "R \<le> unat (FirstDataSec (finfo fs))" using w(5) by simp
  then show d: "R * B \<le> data_start fs"
    unfolding data_start_def B_def by (rule mult_le_mono1)
  from c d data_start_le(2) [OF wf] have lim: "I * B + 496 < 2 ^ 32" by simp
  have m: "unat (FsInfo (finfo fs) * ucast (BytesPerSec (finfo fs))) = I * B"
  proof -
    have "unat (FsInfo (finfo fs)) * unat (ucast (BytesPerSec (finfo fs)) :: 32 word) < 2 ^ 32"
      using lim by (simp add: unat_bps32 I_def B_def)
    then show ?thesis by (simp add: unat_mult32 unat_bps32 I_def B_def)
  qed
  have m': "ucast (BytesPerSec (finfo fs)) * FsInfo (finfo fs)
              = FsInfo (finfo fs) * ucast (BytesPerSec (finfo fs))"
    by (rule mult.commute)
  have "unat (FsInfo (finfo fs) * ucast (BytesPerSec (finfo fs))) + unat (488 :: 32 word) < 2 ^ 32"
    using lim by (simp add: m)
  then show "unat (FsInfo (finfo fs) * ucast (BytesPerSec (finfo fs)) + 488) = I * B + 488"
    by (simp add: unat_add32 m)
  have "unat (FsInfo (finfo fs) * ucast (BytesPerSec (finfo fs))) + unat (492 :: 32 word) < 2 ^ 32"
    using lim by (simp add: m)
  then show "unat (ucast (BytesPerSec (finfo fs)) * FsInfo (finfo fs) + 492) = I * B + 492"
    by (simp add: unat_add32 m m')
qed

lemma unat_EndOfFat:
  assumes wf: "wf_volume fs"
  shows "unat (GetEndOfFat (finfo fs))
     = (unat (TotSec (finfo fs)) - unat (FirstDataSec (finfo fs))) div unat (SecPerClus (finfo fs)) + 1"
proof -
  define T where "T = unat (TotSec (finfo fs))"
  define D where "D = unat (FirstDataSec (finfo fs))"
  define S where "S = unat (SecPerClus (finfo fs))"
  note w = wf_volumeD [OF wf, folded T_def D_def S_def]
  have "FirstDataSec (finfo fs) \<le> TotSec (finfo fs)"
    using w(6) by (simp add: word_le_nat_alt T_def D_def)
  then have sub: "unat (TotSec (finfo fs) - FirstDataSec (finfo fs)) = T - D"
    by (simp add: unat_sub T_def D_def)
  have q: "unat ((TotSec (finfo fs) - FirstDataSec (finfo fs)) div SecPerClus (finfo fs))
             = (T - D) div S"
    by (simp add: unat_div sub S_def)
  have "T < 2 ^ 32" using unsigned_less [of "TotSec (finfo fs)"] by (simp add: T_def)
  moreover have "(T - D) div S \<le> T"
    by (meson diff_le_self div_le_dividend le_trans)
  moreover have "(T - D) div S + 1 < 2 ^ 32"
  proof (cases "T = 0")
    case True
    then show ?thesis by simp
  next
    case False
    from w(1) have "2 \<le> bps fs" by simp
    then have "T * 2 \<le> T * bps fs" by (rule mult_le_mono2)
    with False have "T + 1 \<le> T * bps fs" by linarith
    with w(9) \<open>(T - D) div S \<le> T\<close> show ?thesis by linarith
  qed
  ultimately have "unat ((TotSec (finfo fs) - FirstDataSec (finfo fs)) div SecPerClus (finfo fs))
         + unat (1 :: 32 word) < 2 ^ 32"
    by (simp add: q)
  then show ?thesis
    unfolding GetEndOfFat_def by (simp add: unat_add32 q T_def D_def S_def)
qed

lemma clus_layout_nat:
  fixes k S D T B :: nat
  assumes k: "2 \<le> k" "k \<le> (T - D) div S + 1" and S: "0 < S" and DT: "D \<le> T"
  shows "(k - 2) * S + D + S \<le> T"
proof -
  from k have "(k - 2) + 1 \<le> (T - D) div S" by simp
  then have "((k - 2) + 1) * S \<le> ((T - D) div S) * S" by (rule mult_le_mono1)
  also have "\<dots> \<le> T - D" by (rule div_times_less_eq_dividend)
  finally have "(k - 2) * S + S \<le> T - D" by (simp add: algebra_simps)
  with DT show ?thesis by simp
qed

lemma clus_pos_eq:
  assumes wf: "wf_volume fs" and v: "valid_clus fs n"
  shows "clus_pos fs n
     = ((unat n - 2) * unat (SecPerClus (finfo fs)) + unat (FirstDataSec (finfo fs))) * bps fs"
    and "clus_size fs = unat (SecPerClus (finfo fs)) * bps fs"
    and "data_start fs \<le> clus_pos fs n"
    and "clus_pos fs n + clus_size fs \<le> unat (TotSec (finfo fs)) * bps fs"
proof -
  define B where "B = bps fs"
  define T where "T = unat (TotSec (finfo fs))"
  define D where "D = unat (FirstDataSec (finfo fs))"
  define S where "S = unat (SecPerClus (finfo fs))"
  define k where "k = unat n"
  note w = wf_volumeD [OF wf, folded T_def D_def S_def B_def]
  from v have k2: "2 \<le> k" and kE: "k \<le> (T - D) div S + 1"
    using unat_EndOfFat [OF wf]
    by (simp_all add: valid_clus_def word_le_nat_alt k_def T_def D_def S_def)
  note L = clus_layout_nat [OF k2 kE w(2) w(6)]
  have lim: "((k - 2) * S + D + S) * B < 2 ^ 32"
  proof -
    have "((k - 2) * S + D + S) * B \<le> T * B" using L by (rule mult_le_mono1)
    then show ?thesis using w(9) by (rule le_less_trans)
  qed
  have Bpos: "0 < B" using w(1) by simp
  have sec: "(k - 2) * S + D + S < 2 ^ 32"
  proof -
    have "(k - 2) * S + D + S \<le> ((k - 2) * S + D + S) * B" using Bpos by simp
    then show ?thesis using lim by (rule le_less_trans)
  qed
  from v have "2 \<le> n" by (simp add: valid_clus_def)
  then have n2: "unat (n - 2) = k - 2" by (simp add: unat_sub k_def)
  have m1: "unat ((n - 2) * SecPerClus (finfo fs)) = (k - 2) * S"
  proof -
    have "unat (n - 2) * unat (SecPerClus (finfo fs)) < 2 ^ 32"
      using sec by (simp add: n2 S_def)
    then show ?thesis by (simp add: unat_mult32 n2 S_def)
  qed
  have m2: "unat (GetFirstSectorOfClus (finfo fs) n) = (k - 2) * S + D"
  proof -
    have "unat ((n - 2) * SecPerClus (finfo fs)) + unat (FirstDataSec (finfo fs)) < 2 ^ 32"
      using sec by (simp add: m1 D_def)
    then show ?thesis
      unfolding GetFirstSectorOfClus_def by (simp add: unat_add32 m1 D_def)
  qed
  have lim2: "B * ((k - 2) * S + D) < 2 ^ 32" and lim3: "B * S < 2 ^ 32"
    using lim by (simp_all add: algebra_simps)
  show p: "clus_pos fs n = ((k - 2) * S + D) * B"
  proof -
    have "unat (ucast (BytesPerSec (finfo fs)) :: 32 word)
            * unat (GetFirstSectorOfClus (finfo fs) n) < 2 ^ 32"
      using lim2 by (simp add: unat_bps32 m2 B_def)
    then show ?thesis
      unfolding clus_pos_def by (simp add: unat_mult32 unat_bps32 m2 B_def)
  qed
  show s: "clus_size fs = S * B"
  proof -
    have "unat (ucast (BytesPerSec (finfo fs)) :: 32 word) * unat (SecPerClus (finfo fs)) < 2 ^ 32"
      using lim3 by (simp add: unat_bps32 S_def B_def)
    then show ?thesis
      unfolding clus_size_def by (simp add: unat_mult32 unat_bps32 S_def B_def)
  qed
  show "data_start fs \<le> clus_pos fs n"
    by (simp add: p data_start_def D_def B_def)
  have "((k - 2) * S + D + S) * B \<le> T * B" using L by (rule mult_le_mono1)
  then show "clus_pos fs n + clus_size fs \<le> T * B"
    by (simp add: p s algebra_simps)
qed


lemma same_but_refl: "same_but fs fs A"
  by (simp add: same_but_def)

lemma same_but_trans:
  "same_but fs fs1 A \<Longrightarrow> same_but fs1 fs2 B \<Longrightarrow> A \<subseteq> C \<Longrightarrow> B \<subseteq> C \<Longrightarrow> same_but fs fs2 C"
  unfolding same_but_def by (simp add: subset_iff) metis

lemma same_but_fields:
  assumes "same_but fs fs' A"
  shows "finfo fs' = finfo fs" and "filesys_size fs' = filesys_size fs" and "cwd fs' = cwd fs"
    and "location fs' = location fs" and "openTable fs' = openTable fs" and "error fs' = error fs"
  using assms by (simp_all add: same_but_def)

lemma same_but_wf:
  assumes "same_but fs fs' A"
  shows "wf_volume fs' = wf_volume fs" and "valid_clus fs' n = valid_clus fs n"
    and "bps fs' = bps fs" and "data_start fs' = data_start fs"
  using same_but_fields [OF assms]
  by (simp_all add: wf_volume_def valid_clus_def bps_def data_start_def)

lemma out_of_range_iff:
  assumes "w * len + pos < 2 ^ 64"
  shows "out_of_range fs len pos w \<longleftrightarrow> filesys_size fs \<le> w * len + pos"
proof -
  from assms have "(w * len + pos) mod 2 ^ 64 = w * len + pos" by (rule mod_less)
  then show ?thesis by (simp only: out_of_range_def)
qed

section \<open>Directory listings depend on the image only\<close>

lemma ReadValue_img:
  assumes "mFilesys fs' = mFilesys fs" and "filesys_size fs' = filesys_size fs"
  shows "ReadValue fs' len pos w = ReadValue fs len pos w"
    and "ReadValue1 fs' pos w = ReadValue1 fs pos w"
  using assms by (simp_all add: ReadValue_def ReadValue1_def out_of_range_def)

lemma GetNextClus_img:
  assumes "mFilesys fs' = mFilesys fs" and "filesys_size fs' = filesys_size fs"
    and "finfo fs' = finfo fs"
  shows "GetNextClus fs' c = GetNextClus fs c"
  using assms by (simp add: GetNextClus_def ReadValue_img [OF assms(1,2)])

lemma read_entry_img:
  assumes "mFilesys fs' = mFilesys fs" and "filesys_size fs' = filesys_size fs"
  shows "read_entry fs' gd pos acc = read_entry fs gd pos acc"
  by (simp add: read_entry_def ReadValue_img [OF assms])

lemma GetFileList_slots_img:
  assumes "mFilesys fs' = mFilesys fs" and "filesys_size fs' = filesys_size fs"
  shows "GetFileList_slots fs' gd loc is acc = GetFileList_slots fs gd loc is acc"
  by (induction "is" arbitrary: acc)
     (simp_all add: read_entry_img [OF assms] rbind_def split: res.splits)

lemma GetFileList_loop_img_aux:
  assumes "GetFileList_loop fs gd c acc = Some y"
  shows "\<forall>fs'. mFilesys fs' = mFilesys fs \<longrightarrow> filesys_size fs' = filesys_size fs
     \<longrightarrow> finfo fs' = finfo fs \<longrightarrow> GetFileList_loop fs' gd c acc = Some y"
proof (rule GetFileList_loop.raw_induct
    [where P = "\<lambda>fs gd c acc y. \<forall>fs'. mFilesys fs' = mFilesys fs
       \<longrightarrow> filesys_size fs' = filesys_size fs
       \<longrightarrow> finfo fs' = finfo fs \<longrightarrow> GetFileList_loop fs' gd c acc = Some y", OF _ assms])
  fix rec fs gd c acc y
  assume IH: "\<And>fs gd c acc y. rec fs gd c acc = Some y \<Longrightarrow>
      \<forall>fs'. mFilesys fs' = mFilesys fs \<longrightarrow> filesys_size fs' = filesys_size fs
         \<longrightarrow> finfo fs' = finfo fs \<longrightarrow> GetFileList_loop fs' gd c acc = Some y"
    and body: "(let entries = ucast (BytesPerSec (finfo fs)) * SecPerClus (finfo fs) div 32;
          loc = ucast (BytesPerSec (finfo fs)) * GetFirstSectorOfClus (finfo fs) c
      in case GetFileList_slots fs gd loc [0..<unat entries] acc of
           Throw \<Rightarrow> Some Throw
         | Ret list' \<Rightarrow>
            (case GetNextClus fs c of
               Throw \<Rightarrow> Some Throw
             | Ret nextCluster \<Rightarrow>
                 if nextCluster < FATEND then rec fs gd nextCluster list'
                 else Some (Ret list'))) = Some y"
  show "\<forall>fs'. mFilesys fs' = mFilesys fs \<longrightarrow> filesys_size fs' = filesys_size fs
     \<longrightarrow> finfo fs' = finfo fs \<longrightarrow> GetFileList_loop fs' gd c acc = Some y"
  proof (intro allI impI)
    fix fs' :: Filesys
    assume img: "mFilesys fs' = mFilesys fs" "filesys_size fs' = filesys_size fs"
      "finfo fs' = finfo fs"
    show "GetFileList_loop fs' gd c acc = Some y"
      using body IH img
      by (subst GetFileList_loop.simps)
         (auto simp: Let_def GetFileList_slots_img [OF img(1,2)] GetNextClus_img [OF img]
               split: res.splits if_splits)
  qed
qed

lemma GetFileList_img:
  assumes "GetFileList fs c gd = Some y" and "mFilesys fs' = mFilesys fs"
    and "filesys_size fs' = filesys_size fs" and "finfo fs' = finfo fs"
  shows "GetFileList fs' c gd = Some y"
  using GetFileList_loop_img_aux [of fs gd c "[]" y] assms by (simp add: GetFileList_def)


section \<open>Saving a directory entry\<close>

lemma unat_plus_small:
  "unat (w :: 32 word) + k < 2 ^ 32 \<Longrightarrow> unat (w + of_nat k) = unat w + k"
proof -
  assume a: "unat w + k < 2 ^ 32"
  then have k: "k < 2 ^ 32" by simp
  then have "unat (of_nat k :: 32 word) = k" by (rule unat_of_nat32)
  with a show ?thesis by (simp add: unat_add32)
qed

lemma less_32_cases:
  "(j :: nat) < 32 \<Longrightarrow> j \<in> {0, 1, 2, 3, 4, 5, 6, 7, 8, 9, 10, 11, 12, 13, 14, 15, 16, 17, 18, 19, 20,
      21, 22, 23, 24, 25, 26, 27, 28, 29, 30, 31}"
  by simp arith

lemma WriteValue_name:
  assumes "length nm = 11" and "n + 11 < filesys_size fs" and "n + 11 < 2 ^ 64"
  shows "WriteValue fs (nm :: 8 word list) n 1
     = Ret (fs\<lparr>mFilesys := (\<lambda>a. if n \<le> a \<and> a < n + 11 then nm ! (a - n) else mFilesys fs a)\<rparr>)"
proof -
  have r: "\<not> out_of_range fs 11 n 1"
    using assms(2,3) by (subst out_of_range_iff) simp_all
  have "fold (\<lambda>i m. WriteItem m (n + i * 1) 1 (nm ! i)) [0..<11] (mFilesys fs)
      = (\<lambda>a. if n \<le> a \<and> a < n + 11 then nm ! (a - n) else mFilesys fs a)"
    by (rule ext) (auto simp: upt_0_11 WriteItem_apply intro!: arg_cong [where f = "(!) nm"])
  with r show ?thesis by (simp add: WriteValue_def assms(1))
qed


lemma in_range_entry:
  assumes "n + 32 < filesys_size fs" and "n + 32 \<le> 2 ^ 32" and "k + w \<le> 32"
    and "filesys_size fs' = filesys_size fs"
  shows "\<not> out_of_range fs' 1 (n + k) w"
proof -
  have "(2::nat) ^ 32 < 2 ^ 64" by simp
  with assms(2,3) have "w * 1 + (n + k) < 2 ^ 64" by linarith
  then have "out_of_range fs' 1 (n + k) w \<longleftrightarrow> filesys_size fs' \<le> w * 1 + (n + k)"
    by (rule out_of_range_iff)
  with assms(1,3,4) show ?thesis by simp
qed

lemma saved_bytes:
  fixes m :: "nat \<Rightarrow> 8 word"
  shows "WriteItem (WriteItem (WriteItem (WriteItem (WriteItem (WriteItem (WriteItem (WriteItem
       (WriteItem (WriteItem
          (\<lambda>a. if n \<le> a \<and> a < n + 11 then map (name_at beyond nm) [0..<11] ! (a - n) else m a)
          (n + 11) 1 (at :: 8 word)) (n + 13) 1 (0 :: 32 word)) (n + 14) 2 (0 :: 32 word))
          (n + 16) 2 (0 :: 32 word)) (n + 18) 2 (0 :: 32 word)) (n + 20) 2 (h :: 16 word))
          (n + 22) 2 (wt :: 16 word)) (n + 24) 2 (wd :: 16 word)) (n + 26) 2 (l :: 16 word))
          (n + 28) 4 (sz :: 32 word)
     = poke n (map (name_at beyond nm) [0..<11]
               @ [at, m (n + 12), 0, 0, 0, 0, 0, 0, 0, ucast h, ucast (drop_bit 8 h),
                  ucast wt, ucast (drop_bit 8 wt), ucast wd, ucast (drop_bit 8 wd),
                  ucast l, ucast (drop_bit 8 l), ucast sz, ucast (drop_bit 8 sz),
                  ucast (drop_bit 16 sz), ucast (drop_bit 24 sz)]) m"
proof (rule ext)
  fix a
  let ?L = "WriteItem (WriteItem (WriteItem (WriteItem (WriteItem (WriteItem (WriteItem (WriteItem
       (WriteItem (WriteItem
          (\<lambda>a. if n \<le> a \<and> a < n + 11 then map (name_at beyond nm) [0..<11] ! (a - n) else m a)
          (n + 11) 1 (at :: 8 word)) (n + 13) 1 (0 :: 32 word)) (n + 14) 2 (0 :: 32 word))
          (n + 16) 2 (0 :: 32 word)) (n + 18) 2 (0 :: 32 word)) (n + 20) 2 (h :: 16 word))
          (n + 22) 2 (wt :: 16 word)) (n + 24) 2 (wd :: 16 word)) (n + 26) 2 (l :: 16 word))
          (n + 28) 4 (sz :: 32 word)"
  let ?R = "poke n (map (name_at beyond nm) [0..<11]
               @ [at, m (n + 12), 0, 0, 0, 0, 0, 0, 0, ucast h, ucast (drop_bit 8 h),
                  ucast wt, ucast (drop_bit 8 wt), ucast wd, ucast (drop_bit 8 wd),
                  ucast l, ucast (drop_bit 8 l), ucast sz, ucast (drop_bit 8 sz),
                  ucast (drop_bit 16 sz), ucast (drop_bit 24 sz)]) m"
  consider "a < n" | "n + 32 \<le> a" | j where "a = n + j" "j < 32"
    by (metis le_add_diff_inverse less_diff_conv2 not_less add.commute)
  then show "?L a = ?R a"
  proof cases
    case 1
    then show ?thesis by (simp add: WriteItem_apply poke_def)
  next
    case 2
    then show ?thesis by (simp add: WriteItem_apply poke_def)
  next
    case 3
    from less_32_cases [OF 3(2)] show ?thesis
      unfolding 3(1)
      by (elim insertE emptyE) (simp_all add: WriteItem_apply poke_def upt_0_11 nth_append)
  qed
qed


lemma WriteValue1_entry:
  assumes "n + 32 < filesys_size fs'" and "n + 32 \<le> 2 ^ 32" and "k + w \<le> 32"
  shows "WriteValue1 fs' v (n + k) w = Ret (fs'\<lparr>mFilesys := WriteItem (mFilesys fs') (n + k) w v\<rparr>)"
  using in_range_entry [OF assms(1,2,3) refl] by (simp add: WriteValue1_eq)

lemma entry_field_pos:
  assumes "unat (loc :: 32 word) + 32 \<le> 2 ^ 32"
  shows "unat (loc + 11) = unat loc + 11" and "unat (loc + 13) = unat loc + 13"
    and "unat (loc + 14) = unat loc + 14" and "unat (loc + 16) = unat loc + 16"
    and "unat (loc + 18) = unat loc + 18" and "unat (loc + 20) = unat loc + 20"
    and "unat (loc + 22) = unat loc + 22" and "unat (loc + 24) = unat loc + 24"
    and "unat (loc + 26) = unat loc + 26" and "unat (loc + 28) = unat loc + 28"
proof -
  have *: "unat (loc + of_nat k) = unat loc + k" if "k < 32" for k
  proof (rule unat_plus_small)
    from assms that show "unat loc + k < 2 ^ 32" by linarith
  qed
  from * [of 11] show "unat (loc + 11) = unat loc + 11" by simp
  from * [of 13] show "unat (loc + 13) = unat loc + 13" by simp
  from * [of 14] show "unat (loc + 14) = unat loc + 14" by simp
  from * [of 16] show "unat (loc + 16) = unat loc + 16" by simp
  from * [of 18] show "unat (loc + 18) = unat loc + 18" by simp
  from * [of 20] show "unat (loc + 20) = unat loc + 20" by simp
  from * [of 22] show "unat (loc + 22) = unat loc + 22" by simp
  from * [of 24] show "unat (loc + 24) = unat loc + 24" by simp
  from * [of 26] show "unat (loc + 26) = unat loc + 26" by simp
  from * [of 28] show "unat (loc + 28) = unat loc + 28" by simp
qed

lemma SaveFileEntry_eq:
  assumes r: "unat (entryLoc e) + 32 < filesys_size fs" and w: "unat (entryLoc e) + 32 \<le> 2 ^ 32"
  shows "SaveFileEntry fs t beyond e
     = Ret (fs\<lparr>mFilesys := poke (unat (entryLoc e))
                    (entry_bytes t beyond e (mFilesys fs (unat (entryLoc e) + 12))) (mFilesys fs)\<rparr>)"
proof -
  define n where "n = unat (entryLoc e)"
  note U = entry_field_pos [OF w, folded n_def]
  have r': "n + 32 < filesys_size fs" and w': "n + 32 \<le> 2 ^ 32"
    using r w by (simp_all add: n_def)
  have "(2::nat) ^ 32 < 2 ^ 64" by simp
  with w' have "n + 11 < 2 ^ 64" by linarith
  moreover from r' have "n + 11 < filesys_size fs" by simp
  ultimately have w0: "WriteValue fs (map (name_at beyond (name e)) [0..<11]) n 1
     = Ret (fs\<lparr>mFilesys := (\<lambda>a. if n \<le> a \<and> a < n + 11
               then map (name_at beyond (name e)) [0..<11] ! (a - n) else mFilesys fs a)\<rparr>)"
    by (intro WriteValue_name) simp_all
  have wk: "WriteValue1 fs' v (n + k) w
              = Ret (fs'\<lparr>mFilesys := WriteItem (mFilesys fs') (n + k) w v\<rparr>)"
    if "filesys_size fs' = filesys_size fs" and "k + w \<le> 32" for fs' k w and v :: "'a::len word"
    using r' w' that by (intro WriteValue1_entry) simp_all
  have st: "SetCurrentTime t e = e\<lparr>wrtDate := wrtDate (SetCurrentTime t e), wrtTime := wrtTime (SetCurrentTime t e)\<rparr>"
    by (simp add: SetCurrentTime_def Let_def)
  have f: "attr (SetCurrentTime t e) = attr e" "hi (SetCurrentTime t e) = hi e"
    "lo (SetCurrentTime t e) = lo e" "size_fe (SetCurrentTime t e) = size_fe e"
    by (simp_all add: SetCurrentTime_def Let_def)
  show ?thesis
    unfolding SaveFileEntry_def Let_def n_def [symmetric] U
    by (simp add: rbind_def w0 wk saved_bytes entry_bytes_def f del: One_nat_def)
qed

section \<open>The entries of a directory listing\<close>

lemma valid_lt_FATEND:
  assumes wf: "wf_volume fs" and v: "valid_clus fs d"
  shows "d < FATEND"
proof -
  define T where "T = unat (TotSec (finfo fs))"
  define D where "D = unat (FirstDataSec (finfo fs))"
  define S where "S = unat (SecPerClus (finfo fs))"
  note w = wf_volumeD [OF wf, folded T_def D_def S_def]
  have "(T - D) div S \<le> T"
    by (meson diff_le_self div_le_dividend le_trans)
  then have e: "unat (GetEndOfFat (finfo fs)) \<le> T + 1"
    using unat_EndOfFat [OF wf] by (simp add: T_def D_def S_def)
  from w(1) have "T * 512 \<le> T * bps fs" by (intro mult_le_mono2)
  then have "T * 512 < 2 ^ 32" using w(9) by (rule le_less_trans)
  then have "T < 8388608" by simp
  with e have "unat (GetEndOfFat (finfo fs)) < 268435448" by simp
  moreover from v have "unat d \<le> unat (GetEndOfFat (finfo fs))"
    by (simp add: valid_clus_def word_le_nat_alt)
  ultimately have "unat d < unat FATEND" by (simp add: FATEND_def)
  then show ?thesis by (simp add: word_less_nat_alt)
qed

lemma read_entry_append:
  "read_entry fs gd pos l
     = (case read_entry fs gd pos [] of Throw \<Rightarrow> Throw | Ret l0 \<Rightarrow> Ret (l @ l0))"
  by (auto simp: read_entry_def rbind_def split: res.splits)

lemma read_entry_cases:
  "read_entry fs gd pos [] = Ret l0 \<Longrightarrow> l0 = [] \<or> (\<exists>e. l0 = [e] \<and> entryLoc e = pos)"
  by (auto simp: read_entry_def rbind_def FileEntry_copy_def FileEntry_new_def
      split: res.splits if_splits)

lemma read_entry_in_range:
  assumes ret: "read_entry fs gd pos [] = Ret l0" and w: "unat pos + 32 \<le> 2 ^ 32"
  shows "unat pos + 32 < filesys_size fs"
proof -
  note U = entry_field_pos [OF w]
  from ret have "(ReadValue1 fs (unat (pos + 28)) 4 :: 32 word res) \<noteq> Throw"
    by (auto simp: read_entry_def rbind_def split: res.splits)
  then have a: "\<not> out_of_range fs 1 (unat pos + 28) 4"
    by (simp add: ReadValue1_eq U split: if_splits)
  have "(2::nat) ^ 32 < 2 ^ 64" by simp
  with w have "4 * 1 + (unat pos + 28) < 2 ^ 64" by linarith
  then have "out_of_range fs 1 (unat pos + 28) 4 \<longleftrightarrow> filesys_size fs \<le> 4 * 1 + (unat pos + 28)"
    by (rule out_of_range_iff)
  with a show ?thesis by simp
qed

lemma slot_pos:
  assumes wf: "wf_volume fs" and v: "valid_clus fs c"
    and i: "i < unat (ucast (BytesPerSec (finfo fs)) * SecPerClus (finfo fs) div 32 :: 32 word)"
  shows "unat (ucast (BytesPerSec (finfo fs)) * GetFirstSectorOfClus (finfo fs) c + 32 * of_nat i :: 32 word)
           = clus_pos fs c + 32 * i"
    and "32 * i + 32 \<le> clus_size fs"
proof -
  have "unat (ucast (BytesPerSec (finfo fs)) * SecPerClus (finfo fs) div 32 :: 32 word)
          = clus_size fs div 32"
    by (simp add: unat_div clus_size_def)
  with i have "i < clus_size fs div 32" by simp
  then have "Suc i \<le> clus_size fs div 32" by simp
  then have "Suc i * 32 \<le> clus_size fs div 32 * 32" by (rule mult_le_mono1)
  also have "\<dots> \<le> clus_size fs" by (rule div_times_less_eq_dividend)
  finally show le: "32 * i + 32 \<le> clus_size fs" by simp
  note c = clus_pos_eq [OF wf v]
  from le c(4) wf_volumeD(9) [OF wf]
  have "clus_pos fs c + 32 * i < 2 ^ 32" by linarith
  then have "unat (ucast (BytesPerSec (finfo fs)) * GetFirstSectorOfClus (finfo fs) c :: 32 word) + 32 * i
               < 2 ^ 32"
    by (simp add: clus_pos_def)
  from unat_plus_small [OF this]
  show "unat (ucast (BytesPerSec (finfo fs)) * GetFirstSectorOfClus (finfo fs) c + 32 * of_nat i :: 32 word)
           = clus_pos fs c + 32 * i"
    by (simp add: clus_pos_def)
qed

lemma GetFileList_slots_ok:
  assumes lim: "unat (TotSec (finfo fs)) * bps fs < 2 ^ 32"
  shows "(\<And>i. i \<in> set is \<Longrightarrow>
                unat (loc + 32 * of_nat i) + 32 \<le> unat (TotSec (finfo fs)) * bps fs
                \<and> data_start fs \<le> unat (loc + 32 * of_nat i))
    \<Longrightarrow> \<forall>e\<in>set l. slot_ok fs gd e
    \<Longrightarrow> GetFileList_slots fs gd loc is l = Ret l'
    \<Longrightarrow> \<forall>e\<in>set l'. slot_ok fs gd e"
proof (induction "is" arbitrary: l)
  case Nil
  then show ?case by simp
next
  case (Cons i "is")
  define pos where "pos = loc + 32 * of_nat i"
  from Cons.prems(1) [of i]
  have p: "unat pos + 32 \<le> unat (TotSec (finfo fs)) * bps fs" "data_start fs \<le> unat pos"
    by (simp_all add: pos_def)
  from p(1) lim have w: "unat pos + 32 \<le> 2 ^ 32" by linarith
  from Cons.prems(3) obtain l1 where l1: "read_entry fs gd pos l = Ret l1"
    and rest: "GetFileList_slots fs gd loc is l1 = Ret l'"
    by (auto simp: rbind_def pos_def split: res.splits)
  from l1 obtain l0 where l0: "read_entry fs gd pos [] = Ret l0" and l1': "l1 = l @ l0"
    by (subst (asm) read_entry_append) (auto split: res.splits)
  note r = read_entry_in_range [OF l0 w]
  from read_entry_cases [OF l0] have "\<forall>e\<in>set l0. slot_ok fs gd e"
    using p r l0 by (auto simp: slot_ok_def)
  with Cons.prems(2) have ok: "\<forall>e\<in>set l1. slot_ok fs gd e" by (auto simp: l1')
  from Cons.IH [OF _ ok rest] Cons.prems(1) show ?case by simp
qed

lemma GetFileList_loop_chain:
  assumes wf: "wf_volume fs"
  shows "is_chain fs cs \<Longrightarrow> \<forall>e\<in>set l. slot_ok fs gd e
    \<Longrightarrow> GetFileList_loop fs gd (hd cs) l = Some (Ret l')
    \<Longrightarrow> \<forall>e\<in>set l'. slot_ok fs gd e"
proof (induction cs arbitrary: l)
  case Nil
  then show ?case by simp
next
  case (Cons c cs)
  from Cons.prems(1) have v: "valid_clus fs c" by (cases cs) simp_all
  note cp = clus_pos_eq [OF wf v]
  have slots: "unat (ucast (BytesPerSec (finfo fs)) * GetFirstSectorOfClus (finfo fs) c + 32 * of_nat i :: 32 word) + 32
                  \<le> unat (TotSec (finfo fs)) * bps fs
        \<and> data_start fs
             \<le> unat (ucast (BytesPerSec (finfo fs)) * GetFirstSectorOfClus (finfo fs) c + 32 * of_nat i :: 32 word)"
    if "i \<in> set [0..<unat (ucast (BytesPerSec (finfo fs)) * SecPerClus (finfo fs) div 32 :: 32 word)]"
    for i
  proof -
    from that have "i < unat (ucast (BytesPerSec (finfo fs)) * SecPerClus (finfo fs) div 32 :: 32 word)"
      by simp
    note s = slot_pos [OF wf v this]
    from s(2) cp(3,4) show ?thesis
      unfolding s(1) by linarith
  qed
  from Cons.prems(3) obtain l1 where l1: "GetFileList_slots fs gd
        (ucast (BytesPerSec (finfo fs)) * GetFirstSectorOfClus (finfo fs) c)
        [0..<unat (ucast (BytesPerSec (finfo fs)) * SecPerClus (finfo fs) div 32 :: 32 word)] l = Ret l1"
    and rest: "(case GetNextClus fs c of Throw \<Rightarrow> Some Throw
                | Ret nextCluster \<Rightarrow> if nextCluster < FATEND
                    then GetFileList_loop fs gd nextCluster l1 else Some (Ret l1)) = Some (Ret l')"
    by (subst (asm) GetFileList_loop.simps) (auto simp: Let_def split: res.splits)
  from GetFileList_slots_ok [OF wf_volumeD(9) [OF wf] slots Cons.prems(2) l1]
  have ok1: "\<forall>e\<in>set l1. slot_ok fs gd e" by blast
  show ?case
  proof (cases cs)
    case Nil
    with Cons.prems(1) obtain t where "GetNextClus fs c = Ret t" "\<not> t < FATEND"
      by (auto split: res.splits simp: not_less)
    with rest have "l' = l1" by simp
    with ok1 show ?thesis by simp
  next
    case (Cons d ds)
    with Cons.prems(1) have n: "GetNextClus fs c = Ret d" and ch: "is_chain fs cs"
      and vd: "valid_clus fs d"
      by (cases ds, simp_all)+
    from valid_lt_FATEND [OF wf vd] have lt: "d < FATEND" .
    from rest n lt Cons have "GetFileList_loop fs gd (hd cs) l1 = Some (Ret l')" by simp
    from Cons.IH [OF ch ok1 this] show ?thesis .
  qed
qed

lemma GetFileList_chain:
  assumes wf: "wf_volume fs" and ch: "is_chain fs (c # cs)"
    and ret: "GetFileList fs c gd = Some (Ret l)"
  shows "\<forall>e\<in>set l. slot_ok fs gd e"
  using GetFileList_loop_chain [OF wf ch, of "[]" gd l] ret by (simp add: GetFileList_def)

section \<open>Removing a file\<close>

lemma closed_for_fields:
  "mFilesys (closed_for fs nm) = mFilesys fs" "filesys_size (closed_for fs nm) = filesys_size fs"
  "finfo (closed_for fs nm) = finfo fs" "cwd (closed_for fs nm) = cwd fs"
  by (simp_all add: closed_for_def Close_def)

lemma read_entry_decode:
  assumes "read_entry fs gd pos [] = Ret [e]"
  shows "\<exists>nm a h l s. (ReadValue fs 11 (unat pos) 1 :: 8 word list res) = Ret nm
      \<and> (ReadValue1 fs (unat (pos + 11)) 1 :: 8 word res) = Ret a
      \<and> (ReadValue1 fs (unat (pos + 20)) 2 :: 16 word res) = Ret h
      \<and> (ReadValue1 fs (unat (pos + 26)) 2 :: 16 word res) = Ret l
      \<and> (ReadValue1 fs (unat (pos + 28)) 4 :: 32 word res) = Ret s
      \<and> (if gd then nm ! 0 = 0 \<or> nm ! 0 = DEALLOC else nm ! 0 \<noteq> 0 \<and> nm ! 0 \<noteq> DEALLOC)
      \<and> e = \<lparr>name = c_string nm, attr = a, lo = l, hi = h, wrtTime = 0, wrtDate = 0,
              size_fe = s, clus = mk_clus l h, entryLoc = pos, openInfo = 0\<rparr>"
  using assms
  by (auto simp: read_entry_def rbind_def FileEntry_copy_def FileEntry_new_def
        split: res.splits if_splits)

lemma slot_ok_name:
  assumes "slot_ok fs False e"
  shows "name e \<noteq> []"
proof -
  from assms have r: "read_entry fs False (entryLoc e) [] = Ret [e]" by (simp add: slot_ok_def)
  from read_entry_decode [OF r]
  obtain nm :: "8 word list" where nm: "ReadValue fs 11 (unat (entryLoc e)) 1 = Ret nm"
    and n0: "nm ! 0 \<noteq> 0" and e: "name e = c_string nm"
    by (metis FileEntry.select_convs(1))
  from nm have "length nm = 11" by (auto simp: ReadValue_def split: if_splits)
  then obtain x xs where "nm = x # xs" by (cases nm) auto
  with n0 e show ?thesis by (simp add: c_string_def)
qed

lemma find_copy:
  "find P (map FileEntry_copy list) = Some e \<Longrightarrow> \<exists>e0\<in>set list. e = FileEntry_copy e0"
  by (induction list) (auto split: if_splits)

lemma copy_fields:
  "name (FileEntry_copy a) = name a" "entryLoc (FileEntry_copy a) = entryLoc a"
  by (simp_all add: FileEntry_copy_def)

lemma GetNFreeClus_frame:
  assumes wf: "wf_volume fs" and fi: "finfo fs' = finfo fs"
    and sz: "filesys_size fs' = filesys_size fs"
    and mem: "\<And>a. a < data_start fs \<Longrightarrow> mFilesys fs' a = mFilesys fs a"
  shows "GetNFreeClus fs' = GetNFreeClus fs"
proof -
  note p = fsinfo_pos [OF wf]
  have "(ReadItem (mFilesys fs') (unat (FsInfo (finfo fs)) * bps fs + 488) 4 :: 32 word)
          = ReadItem (mFilesys fs) (unat (FsInfo (finfo fs)) * bps fs + 488) 4"
  proof (rule ReadItem_cong)
    fix q :: nat assume "q < 4"
    with p(3,4) have "unat (FsInfo (finfo fs)) * bps fs + 488 + q < data_start fs" by linarith
    then show "mFilesys fs' (unat (FsInfo (finfo fs)) * bps fs + 488 + q)
                 = mFilesys fs (unat (FsInfo (finfo fs)) * bps fs + 488 + q)"
      by (rule mem)
  qed
  then show ?thesis
    by (simp add: GetNFreeClus_def ReadValue1_eq out_of_range_def fi sz p(1))
qed

lemma length_entry_bytes: "length (entry_bytes t beyond e b) = 32"
  by (simp add: entry_bytes_def)

lemma entry_bytes_0: "entry_bytes t beyond e b ! 0 = name_at beyond (name e) 0"
  by (simp add: entry_bytes_def upt_0_11)

lemma Rm_single:
  assumes listed: "GetFileList fs (cwd fs) False = Some (Ret list)"
    and found: "find (\<lambda>e. GetShortName e = nm \<and> \<not> (attr e AND DIRECT = DIRECT))
                  (map FileEntry_copy list) = Some e"
  shows "Rm fs clock beyond [nm]
     = (case (if clus e \<noteq> 0 then free_chain_loop (closed_for fs nm) (clus e)
              else Some (Ret (closed_for fs nm))) of
          None \<Rightarrow> None
        | Some Throw \<Rightarrow> Some Throw
        | Some (Ret fs1) \<Rightarrow>
           (case SaveFileEntry fs1 (clock 0) (beyond 0) (e\<lparr>name := (name e)[0 := 0xe5]\<rparr>) of
              Throw \<Rightarrow> Some Throw
            | Ret fs2 \<Rightarrow> Some (Ret fs2)))"
proof -
  have "GetFileList (closed_for fs nm) (cwd fs) False = Some (Ret list)"
    using listed by (rule GetFileList_img) (simp_all add: closed_for_fields)
  then show ?thesis
    using found
    by (simp add: Rm_def Rm_one_def Rm_remove_def closed_for_def [symmetric]
          split: option.splits res.splits)
qed

text \<open>
  Removing an empty file. On a well-formed volume, in a current directory whose cluster chain is
  valid, let the listing of the directory hold a file \<open>e\<close> named \<open>nm\<close> (the first entry
  with that name that is not a directory) whose stored first cluster is 0. Then
  \<^verbatim>\<open>rm nm\<close> returns; the first byte of the entry's slot is \<open>0xE5\<close>; the slot lies in the
  data region and no byte of the image outside the 32 bytes of the slot is changed, so
  no FAT entry and no byte of the FS information sector is written; and the stored
  free-cluster count reads as before.
\<close>

lemma rm_empty_file:
  assumes wf: "wf_volume fs"
    and dir: "is_chain fs (cwd fs # dcs)"
    and listed: "GetFileList fs (cwd fs) False = Some (Ret list)"
    and found: "find (\<lambda>e. GetShortName e = nm \<and> \<not> (attr e AND DIRECT = DIRECT))
                  (map FileEntry_copy list) = Some e"
    and empty: "clus e = 0"
  shows "\<exists>fs'. Rm fs clock beyond [nm] = Some (Ret fs')
           \<and> mFilesys fs' (unat (entryLoc e)) = 0xe5
           \<and> data_start fs \<le> unat (entryLoc e)
           \<and> (\<forall>a. a < unat (entryLoc e) \<or> unat (entryLoc e) + 32 \<le> a
                  \<longrightarrow> mFilesys fs' a = mFilesys fs a)
           \<and> GetNFreeClus fs' = GetNFreeClus fs"
proof -
  define n where "n = unat (entryLoc e)"
  define e' where "e' = e\<lparr>name := (name e)[0 := 0xe5]\<rparr>"
  define fs0 where "fs0 = closed_for fs nm"
  define fs' where "fs' = fs0\<lparr>mFilesys := poke n (entry_bytes (clock 0) (beyond 0) e' (mFilesys fs0 (n + 12)))
                              (mFilesys fs0)\<rparr>"
  from find_copy [OF found] obtain e0 where e0: "e0 \<in> set list" "e = FileEntry_copy e0" by blast
  from GetFileList_chain [OF wf dir listed] e0(1) have ok: "slot_ok fs False e0" by blast
  then have pos: "data_start fs \<le> n" "n + 32 \<le> unat (TotSec (finfo fs)) * bps fs"
    "n + 32 < filesys_size fs"
    by (simp_all add: slot_ok_def n_def e0(2) copy_fields)
  from pos(2) wf_volumeD(9) [OF wf] have w: "n + 32 \<le> 2 ^ 32" by linarith
  from slot_ok_name [OF ok] have ne: "name e \<noteq> []" by (simp add: e0(2) copy_fields)
  have loc': "unat (entryLoc e') = n" by (simp add: e'_def n_def)
  have "SaveFileEntry fs0 (clock 0) (beyond 0) e' = Ret fs'"
    unfolding fs'_def loc' [symmetric]
    using pos w by (intro SaveFileEntry_eq) (simp_all add: loc' fs0_def closed_for_fields)
  then have rm: "Rm fs clock beyond [nm] = Some (Ret fs')"
    by (simp add: Rm_single [OF listed found] empty fs0_def e'_def)
  have m: "mFilesys fs' = poke n (entry_bytes (clock 0) (beyond 0) e' (mFilesys fs (n + 12))) (mFilesys fs)"
    by (simp add: fs'_def fs0_def closed_for_fields)
  have first: "mFilesys fs' n = 0xe5"
    using ne by (simp add: m poke_def length_entry_bytes entry_bytes_0 name_at_def e'_def)
  have frame: "mFilesys fs' a = mFilesys fs a" if "a < n \<or> n + 32 \<le> a" for a
    using that by (auto simp: m poke_def length_entry_bytes)
  have "GetNFreeClus fs' = GetNFreeClus fs"
  proof (rule GetNFreeClus_frame [OF wf])
    show "finfo fs' = finfo fs" "filesys_size fs' = filesys_size fs"
      by (simp_all add: fs'_def fs0_def closed_for_fields)
    fix a assume "a < data_start fs"
    with pos(1) have "a < n" by simp
    then show "mFilesys fs' a = mFilesys fs a" by (simp add: frame)
  qed
  with rm first pos(1) frame show ?thesis
    unfolding n_def by blast
qed

lemma vol_wf: "wf_volume (vol_fs m)"
  by (simp add: wf_volume_def bps_def vol_fs_def vol_info_def GetEndOfFat_def)

lemma vol_root_chain: "is_chain (vol_fs vol_mem) [2]"
  by (simp add: valid_clus_def GetEndOfFat_def vol_defs io_eval fat_eval)

lemma vol_find_empty:
  "find (\<lambda>e. GetShortName e = str ''empty'' \<and> \<not> (attr e AND DIRECT = DIRECT))
     (map FileEntry_copy root_list) = Some (root_list ! 1)"
  by (simp add: root_list_def GetShortName_def DIRECT_def FileEntry_copy_def mk_clus_def
        str_def tolower_def Let_def)

text \<open>
  On the small volume: \<^verbatim>\<open>rm empty\<close> in the root directory, where \<^verbatim>\<open>EMPTY\<close>
  has no cluster and its slot is at byte 2080.
\<close>

lemma rm_empty_file_example:
  "wf_volume (vol_fs vol_mem) \<and> is_chain (vol_fs vol_mem) (cwd (vol_fs vol_mem) # [])
   \<and> GetFileList (vol_fs vol_mem) (cwd (vol_fs vol_mem)) False = Some (Ret root_list)
   \<and> find (\<lambda>e. GetShortName e = str ''empty'' \<and> \<not> (attr e AND DIRECT = DIRECT))
        (map FileEntry_copy root_list) = Some (root_list ! 1)
   \<and> clus (root_list ! 1) = 0
   \<and> (\<exists>fs'. Rm (vol_fs vol_mem) (\<lambda>i. noon) (\<lambda>i j. 0) [str ''empty''] = Some (Ret fs')
          \<and> mFilesys fs' 2080 = 0xe5
          \<and> GetNFreeClus fs' = GetNFreeClus (vol_fs vol_mem))"
proof -
  have a: "wf_volume (vol_fs vol_mem)" by (rule vol_wf)
  have b: "is_chain (vol_fs vol_mem) (cwd (vol_fs vol_mem) # [])"
    using vol_root_chain by (simp only: vol_cwd)
  have c: "GetFileList (vol_fs vol_mem) (cwd (vol_fs vol_mem)) False = Some (Ret root_list)"
    by (simp add: vol_cwd vol_root_listing)
  have d: "clus (root_list ! 1) = 0" by (simp add: root_list_def)
  have e: "unat (entryLoc (root_list ! 1)) = 2080" by (simp add: root_list_def)
  from rm_empty_file [OF a b c vol_find_empty d,
      where clock = "\<lambda>i. noon" and beyond = "\<lambda>i j. 0"] a b c d vol_find_empty
  show ?thesis unfolding e by blast
qed

section \<open>The FAT engine on a well-formed volume\<close>

lemma fat_disjoint_nat:
  fixes i j F B R n m :: nat
  assumes n: "4 * (n + 1) \<le> F * B" and m: "4 * (m + 1) \<le> F * B" and ne: "n \<noteq> m \<or> i \<noteq> j"
  shows "(R + i * F) * B + 4 * n + 4 \<le> (R + j * F) * B + 4 * m
       \<or> (R + j * F) * B + 4 * m + 4 \<le> (R + i * F) * B + 4 * n"
proof -
  have step: "(R + a * F) * B + 4 * x + 4 \<le> (R + b * F) * B + 4 * y"
    if "a < b" and "4 * (x + 1) \<le> F * B" for a b x y :: nat
  proof -
    from that(1) have "Suc a * F \<le> b * F" by (intro mult_le_mono1) simp
    then have "(R + Suc a * F) * B \<le> (R + b * F) * B" by (intro mult_le_mono1) simp
    then have "(R + a * F) * B + F * B \<le> (R + b * F) * B" by (simp add: algebra_simps)
    moreover define A where "A = (R + a * F) * B"
    moreover define C where "C = (R + b * F) * B"
    moreover define G where "G = F * B"
    ultimately have "A + G \<le> C" by simp
    moreover from that(2) have "4 * x + 4 \<le> G" by (simp add: G_def)
    ultimately have "A + 4 * x + 4 \<le> C + 4 * y" by linarith
    then show ?thesis by (simp add: A_def C_def)
  qed
  consider "i < j" | "j < i" | "i = j" by linarith
  then show ?thesis
  proof cases
    case 1
    from step [OF 1 n] show ?thesis by blast
  next
    case 2
    from step [OF 2 m] show ?thesis by blast
  next
    case 3
    with ne have "n \<noteq> m" by simp
    then show ?thesis using 3 by auto
  qed
qed

lemma valid_clus_le: "valid_clus fs n \<Longrightarrow> n \<le> GetEndOfFat (finfo fs)"
  by (simp add: valid_clus_def)

lemma valid_data:
  assumes wf: "wf_volume fs" and v: "valid_clus fs n"
  shows "data_start fs < filesys_size fs"
proof -
  note c = clus_pos_eq [OF wf v]
  from wf_volumeD(1,2) [OF wf] have "0 < clus_size fs" by (simp add: c(2))
  with c(3,4) wf_volumeD(10) [OF wf] show ?thesis by linarith
qed

lemma fat_pos_facts:
  assumes wf: "wf_volume fs" and v: "valid_clus fs n" and i: "i < unat (NumFats (finfo fs))"
  shows "fat_pos (finfo fs) (of_nat i) n \<in> fat_region fs"
    and "fat_pos (finfo fs) (of_nat i) n + 4 \<le> data_start fs"
    and "unat (RsvdSecCnt (finfo fs)) * bps fs \<le> fat_pos (finfo fs) (of_nat i) n"
    and "\<And>fs'. filesys_size fs' = filesys_size fs
           \<Longrightarrow> \<not> out_of_range fs' 1 (fat_pos (finfo fs) (of_nat i) n) 4"
proof -
  note p = fat_pos_eq [OF wf i valid_clus_le [OF v]]
  show b: "fat_pos (finfo fs) (of_nat i) n + 4 \<le> data_start fs" by (rule p(2))
  show a: "unat (RsvdSecCnt (finfo fs)) * bps fs \<le> fat_pos (finfo fs) (of_nat i) n"
    by (simp add: p(1) algebra_simps)
  from a b show "fat_pos (finfo fs) (of_nat i) n \<in> fat_region fs"
    by (simp add: fat_region_def)
  fix fs' :: Filesys assume sz: "filesys_size fs' = filesys_size fs"
  have "(2::nat) ^ 32 < 2 ^ 64" by simp
  with b data_start_le(2) [OF wf]
  have "4 * 1 + fat_pos (finfo fs) (of_nat i) n < 2 ^ 64" by linarith
  then have "out_of_range fs' 1 (fat_pos (finfo fs) (of_nat i) n) 4
      \<longleftrightarrow> filesys_size fs' \<le> 4 * 1 + fat_pos (finfo fs) (of_nat i) n"
    by (rule out_of_range_iff)
  with b valid_data [OF wf v] sz
  show "\<not> out_of_range fs' 1 (fat_pos (finfo fs) (of_nat i) n) 4" by simp
qed

lemma fat_pos_disjoint:
  assumes wf: "wf_volume fs" and n: "valid_clus fs n" and m: "valid_clus fs m"
    and i: "i < unat (NumFats (finfo fs))" and j: "j < unat (NumFats (finfo fs))"
    and ne: "n \<noteq> m \<or> i \<noteq> j"
  shows "fat_pos (finfo fs) (of_nat i) n + 4 \<le> fat_pos (finfo fs) (of_nat j) m
       \<or> fat_pos (finfo fs) (of_nat j) m + 4 \<le> fat_pos (finfo fs) (of_nat i) n"
proof -
  note pn = fat_pos_eq(1) [OF wf i valid_clus_le [OF n]]
  note pm = fat_pos_eq(1) [OF wf j valid_clus_le [OF m]]
  from n have "unat n \<le> unat (GetEndOfFat (finfo fs))" by (simp add: valid_clus_def word_le_nat_alt)
  with wf_volumeD(8) [OF wf] have a: "4 * (unat n + 1) \<le> unat (FATSz (finfo fs)) * bps fs" by simp
  from m have "unat m \<le> unat (GetEndOfFat (finfo fs))" by (simp add: valid_clus_def word_le_nat_alt)
  with wf_volumeD(8) [OF wf] have b: "4 * (unat m + 1) \<le> unat (FATSz (finfo fs)) * bps fs" by simp
  from ne have "unat n \<noteq> unat m \<or> i \<noteq> j" by (auto dest: unsigned_word_eqI)
  from fat_disjoint_nat [OF a b this] show ?thesis
    unfolding pn pm .
qed

lemma GetNextClus_fat_pos:
  "GetNextClus fs n
     = rbind (ReadValue1 fs (fat_pos (finfo fs) (of_nat 0) n) 4 :: 32 word res)
         (\<lambda>entry. Ret (entry AND FATMASK))"
  by (simp add: GetNextClus_def fat_pos_def)

lemma GetNextClus_eq:
  assumes wf: "wf_volume fs" and v: "valid_clus fs n"
    and fi: "finfo fs' = finfo fs" and sz: "filesys_size fs' = filesys_size fs"
  shows "GetNextClus fs' n
           = Ret (ReadItem (mFilesys fs') (fat_pos (finfo fs) (of_nat 0) n) 4 AND FATMASK)"
proof -
  from wf_volumeD(3) [OF wf] have z: "0 < unat (NumFats (finfo fs))" .
  from fat_pos_facts(4) [OF wf v z sz] show ?thesis
    unfolding GetNextClus_fat_pos by (simp add: ReadValue1_eq rbind_def fi)
qed

lemma GetNextClus_frame:
  assumes wf: "wf_volume fs" and v: "valid_clus fs n"
    and fi: "finfo fs' = finfo fs" and sz: "filesys_size fs' = filesys_size fs"
    and mem: "\<And>q. q < 4 \<Longrightarrow> mFilesys fs' (fat_pos (finfo fs) (of_nat 0) n + q)
                             = mFilesys fs (fat_pos (finfo fs) (of_nat 0) n + q)"
  shows "GetNextClus fs' n = GetNextClus fs n"
proof -
  have "(ReadItem (mFilesys fs') (fat_pos (finfo fs) (of_nat 0) n) 4 :: 32 word)
          = ReadItem (mFilesys fs) (fat_pos (finfo fs) (of_nat 0) n) 4"
    by (rule ReadItem_cong) (rule mem)
  then show ?thesis
    by (simp only: GetNextClus_eq [OF wf v fi sz] GetNextClus_eq [OF wf v refl refl])
qed

lemma SetNextClus_upto_eq:
  assumes wf: "wf_volume fs" and v: "valid_clus fs n"
  shows "\<forall>i\<in>set is. i < unat (NumFats (finfo fs)) \<Longrightarrow> finfo fs' = finfo fs
    \<Longrightarrow> filesys_size fs' = filesys_size fs
    \<Longrightarrow> SetNextClus_upto n val is fs'
        = Ret (fs'\<lparr>mFilesys := fold (\<lambda>i m. WriteItem m (fat_pos (finfo fs) (of_nat i) n) 4
                                       (val AND FATMASK)) is (mFilesys fs')\<rparr>)"
proof (induction "is" arbitrary: fs')
  case Nil
  then show ?case by simp
next
  case (Cons i "is")
  from Cons.prems(1) have i: "i < unat (NumFats (finfo fs))" by simp
  note r = fat_pos_facts(4) [OF wf v i]
  define fs1 where "fs1 = fs'\<lparr>mFilesys := WriteItem (mFilesys fs')
                      (fat_pos (finfo fs) (of_nat i) n) 4 (val AND FATMASK)\<rparr>"
  have b: "SetNextClus_body n val i fs' = Ret fs1"
    using r [OF Cons.prems(3)]
    by (simp add: SetNextClus_body_def ReadValue1_eq WriteValue1_eq rbind_def Let_def
          Cons.prems(2) fs1_def)
  have "SetNextClus_upto n val is fs1
        = Ret (fs1\<lparr>mFilesys := fold (\<lambda>i m. WriteItem m (fat_pos (finfo fs) (of_nat i) n) 4
                                       (val AND FATMASK)) is (mFilesys fs1)\<rparr>)"
    using Cons.prems by (intro Cons.IH) (simp_all add: fs1_def)
  then show ?case
    by (simp add: b rbind_def fs1_def)
qed

lemma fold_write_other:
  "(\<And>i. i \<in> set is \<Longrightarrow> a < p i \<or> p i + 4 \<le> a)
    \<Longrightarrow> fold (\<lambda>i m. WriteItem m (p i) 4 (w :: 32 word)) is m a = m a"
proof (induction "is" arbitrary: m)
  case Nil
  then show ?case by simp
next
  case (Cons i "is")
  from Cons.prems [of i] have "WriteItem m (p i) 4 w a = m a"
    by (auto simp: WriteItem_apply)
  with Cons.IH [of "WriteItem m (p i) 4 w"] Cons.prems show ?case by simp
qed

lemma SetNextClus_ok:
  assumes wf: "wf_volume fs" and v: "valid_clus fs n"
  shows "\<exists>fs'. SetNextClus fs n val = Some (Ret fs') \<and> same_but fs fs' (fat_region fs)
           \<and> GetNextClus fs' n = Ret (val AND FATMASK)
           \<and> (\<forall>m. valid_clus fs m \<and> m \<noteq> n \<longrightarrow> GetNextClus fs' m = GetNextClus fs m)"
proof -
  define N where "N = unat (NumFats (finfo fs))"
  define p where "p = (\<lambda>i. fat_pos (finfo fs) (of_nat i) n)"
  define w where "w = val AND FATMASK"
  define m' where "m' = fold (\<lambda>i m. WriteItem m (p i) 4 w) [0..<N] (mFilesys fs)"
  define fs' where "fs' = fs\<lparr>mFilesys := m'\<rparr>"
  note wN = wf_volumeD(3,4) [OF wf, folded N_def]
  have le: "NumFats (finfo fs) \<le> 255"
    using wN(2) by (simp add: word_le_nat_alt N_def)
  have "SetNextClus_upto n val [0..<N] fs = Ret fs'"
    unfolding fs'_def m'_def p_def w_def
    by (rule SetNextClus_upto_eq [OF wf v]) (simp_all add: N_def)
  then have run: "SetNextClus fs n val = Some (Ret fs')"
    by (simp add: SetNextClus_def le N_def)
  have other: "m' a = mFilesys fs a" if "\<And>i. i < N \<Longrightarrow> a < p i \<or> p i + 4 \<le> a" for a
    unfolding m'_def by (rule fold_write_other) (simp add: that)
  have frame: "same_but fs fs' (fat_region fs)"
  proof -
    have "m' a = mFilesys fs a" if "a \<notin> fat_region fs" for a
    proof (rule other)
      fix i assume "i < N"
      then have i: "i < unat (NumFats (finfo fs))" by (simp add: N_def)
      from fat_pos_facts(2,3) [OF wf v i] that show "a < p i \<or> p i + 4 \<le> a"
        by (auto simp: fat_region_def p_def)
    qed
    then show ?thesis by (simp add: same_but_def fs'_def)
  qed
  have fi: "finfo fs' = finfo fs" and sz: "filesys_size fs' = filesys_size fs"
    by (simp_all add: fs'_def)
  have up: "[0..<N] = 0 # [1..<N]" using wN(1) by (simp add: upt_rec)
  have own: "GetNextClus fs' n = Ret (val AND FATMASK)"
  proof -
    have "m' (p 0 + q) = WriteItem (mFilesys fs) (p 0) 4 w (p 0 + q)" if "q < 4" for q
    proof -
      have "fold (\<lambda>i m. WriteItem m (p i) 4 w) [1..<N] (WriteItem (mFilesys fs) (p 0) 4 w) (p 0 + q)
              = WriteItem (mFilesys fs) (p 0) 4 w (p 0 + q)"
      proof (rule fold_write_other)
        fix i assume "i \<in> set [1..<N]"
        then have i: "i < unat (NumFats (finfo fs))" and i0: "i \<noteq> 0" by (simp_all add: N_def)
        from wN(1) have z: "0 < unat (NumFats (finfo fs))" by (simp add: N_def)
        from fat_pos_disjoint [OF wf v v i z] i0
        have "p i + 4 \<le> p 0 \<or> p 0 + 4 \<le> p i" by (simp add: p_def)
        with that show "p 0 + q < p i \<or> p i + 4 \<le> p 0 + q" by linarith
      qed
      then show ?thesis unfolding m'_def up by simp
    qed
    then have "(ReadItem m' (p 0) 4 :: 32 word) = ReadItem (WriteItem (mFilesys fs) (p 0) 4 w) (p 0) 4"
      by (intro ReadItem_cong)
    then have "(ReadItem m' (p 0) 4 :: 32 word) = w" by (simp only: ReadItem_WriteItem_4)
    then have "GetNextClus fs' n = Ret (w AND FATMASK)"
      unfolding GetNextClus_eq [OF wf v fi sz] by (simp add: fs'_def p_def)
    then show ?thesis by (simp add: w_def word_bw_assocs)
  qed
  have others: "GetNextClus fs' m = GetNextClus fs m" if m: "valid_clus fs m" and ne: "m \<noteq> n" for m
  proof (rule GetNextClus_frame [OF wf m fi sz])
    fix q :: nat assume q: "q < 4"
    from wN(1) have z: "0 < unat (NumFats (finfo fs))" by (simp add: N_def)
    have "m' (fat_pos (finfo fs) (of_nat 0) m + q) = mFilesys fs (fat_pos (finfo fs) (of_nat 0) m + q)"
    proof (rule other)
      fix i assume "i < N"
      then have i: "i < unat (NumFats (finfo fs))" by (simp add: N_def)
      from fat_pos_disjoint [OF wf v m i z] ne
      have "p i + 4 \<le> fat_pos (finfo fs) (of_nat 0) m \<or> fat_pos (finfo fs) (of_nat 0) m + 4 \<le> p i"
        by (auto simp: p_def)
      with q show "fat_pos (finfo fs) (of_nat 0) m + q < p i \<or> p i + 4 \<le> fat_pos (finfo fs) (of_nat 0) m + q"
        by linarith
    qed
    then show "mFilesys fs' (fat_pos (finfo fs) (of_nat 0) m + q)
                 = mFilesys fs (fat_pos (finfo fs) (of_nat 0) m + q)"
      by (simp add: fs'_def)
  qed
  from run frame own others show ?thesis by blast
qed

section \<open>The free-cluster count and cluster chains\<close>

lemma region_cong:
  assumes "finfo fs' = finfo fs"
  shows "fat_region fs' = fat_region fs" and "count_region fs' = count_region fs"
    and "count_pos fs' = count_pos fs"
  using assms by (simp_all add: fat_region_def count_region_def count_pos_def bps_def data_start_def)

lemma count_pos_facts:
  assumes wf: "wf_volume fs"
  shows "count_pos fs + 4 \<le> unat (RsvdSecCnt (finfo fs)) * bps fs"
    and "count_pos fs + 4 \<le> data_start fs"
    and "\<And>fs'. filesys_size fs' = filesys_size fs \<Longrightarrow> \<not> out_of_range fs' 1 (count_pos fs) 4"
    and "unat (FsInfo (finfo fs) * ucast (BytesPerSec (finfo fs)) + 488) = count_pos fs"
proof -
  note p = fsinfo_pos [OF wf]
  from p(3) show a: "count_pos fs + 4 \<le> unat (RsvdSecCnt (finfo fs)) * bps fs"
    by (simp add: count_pos_def)
  with p(4) show b: "count_pos fs + 4 \<le> data_start fs" by simp
  show "unat (FsInfo (finfo fs) * ucast (BytesPerSec (finfo fs)) + 488) = count_pos fs"
    by (simp add: p(1) count_pos_def)
  fix fs' :: Filesys assume sz: "filesys_size fs' = filesys_size fs"
  have "(2::nat) ^ 32 < 2 ^ 64" by simp
  with b data_start_le(2) [OF wf] have "4 * 1 + count_pos fs < 2 ^ 64" by linarith
  then have "out_of_range fs' 1 (count_pos fs) 4 \<longleftrightarrow> filesys_size fs' \<le> 4 * 1 + count_pos fs"
    by (rule out_of_range_iff)
  moreover from p(3) have "count_pos fs + 4 < unat (RsvdSecCnt (finfo fs)) * bps fs"
    by (simp add: count_pos_def)
  ultimately show "\<not> out_of_range fs' 1 (count_pos fs) 4"
    using p(4) data_start_le(3) [OF wf] sz by simp
qed

lemma GetNFreeClus_eq:
  assumes wf: "wf_volume fs" and fi: "finfo fs' = finfo fs"
    and sz: "filesys_size fs' = filesys_size fs"
  shows "GetNFreeClus fs' = Ret (ReadItem (mFilesys fs') (count_pos fs) 4)"
  using count_pos_facts(3) [OF wf sz]
  by (simp add: GetNFreeClus_def ReadValue1_eq fi count_pos_facts(4) [OF wf])

lemma GetNFreeClus_same:
  assumes wf: "wf_volume fs" and sb: "same_but fs fs' A" and dis: "A \<inter> count_region fs = {}"
  shows "GetNFreeClus fs' = GetNFreeClus fs"
proof -
  note f = same_but_fields [OF sb]
  have "(ReadItem (mFilesys fs') (count_pos fs) 4 :: 32 word) = ReadItem (mFilesys fs) (count_pos fs) 4"
  proof (rule ReadItem_cong)
    fix q :: nat assume "q < 4"
    then have "count_pos fs + q \<in> count_region fs" by (simp add: count_region_def)
    with dis have "count_pos fs + q \<notin> A" by blast
    with sb show "mFilesys fs' (count_pos fs + q) = mFilesys fs (count_pos fs + q)"
      by (simp add: same_but_def)
  qed
  then show ?thesis
    by (simp only: GetNFreeClus_eq [OF wf f(1,2)] GetNFreeClus_eq [OF wf refl refl])
qed

lemma GetNextClus_same:
  assumes wf: "wf_volume fs" and v: "valid_clus fs n" and sb: "same_but fs fs' A"
    and dis: "A \<inter> fat_region fs = {}"
  shows "GetNextClus fs' n = GetNextClus fs n"
proof (rule GetNextClus_frame [OF wf v])
  note f = same_but_fields [OF sb]
  show "finfo fs' = finfo fs" "filesys_size fs' = filesys_size fs" by (rule f)+
  fix q :: nat assume q: "q < 4"
  from wf_volumeD(3) [OF wf] have z: "0 < unat (NumFats (finfo fs))" .
  from fat_pos_facts(2,3) [OF wf v z] q
  have "fat_pos (finfo fs) (of_nat 0) n + q \<in> fat_region fs" by (simp add: fat_region_def)
  with dis have "fat_pos (finfo fs) (of_nat 0) n + q \<notin> A" by blast
  with sb show "mFilesys fs' (fat_pos (finfo fs) (of_nat 0) n + q)
                  = mFilesys fs (fat_pos (finfo fs) (of_nat 0) n + q)"
    by (simp add: same_but_def)
qed

lemma regions_disjoint:
  assumes wf: "wf_volume fs"
  shows "fat_region fs \<inter> count_region fs = {}" and "count_region fs \<inter> fat_region fs = {}"
  using count_pos_facts(1) [OF wf] by (auto simp: fat_region_def count_region_def)

lemma UpdateClusCount_ok:
  assumes wf: "wf_volume fs" and g: "GetNFreeClus fs = Ret v"
  shows "\<exists>fs'. UpdateClusCount fs op = Ret fs' \<and> same_but fs fs' (count_region fs)
           \<and> GetNFreeClus fs' = Ret (op v)"
proof -
  define fs' where "fs' = fs\<lparr>mFilesys := WriteItem (mFilesys fs) (count_pos fs) 4 (op v)\<rparr>"
  have "SetNFreeClus fs (op v) = Ret fs'"
    using count_pos_facts(3) [OF wf refl]
    by (simp add: SetNFreeClus_def WriteValue1_eq count_pos_facts(4) [OF wf] fs'_def)
  then have run: "UpdateClusCount fs op = Ret fs'"
    by (simp add: UpdateClusCount_def g rbind_def)
  have sb: "same_but fs fs' (count_region fs)"
    by (auto simp: same_but_def fs'_def WriteItem_apply count_region_def)
  have "GetNFreeClus fs' = Ret (ReadItem (mFilesys fs') (count_pos fs) 4)"
    by (rule GetNFreeClus_eq [OF wf]) (simp_all add: fs'_def)
  then have "GetNFreeClus fs' = Ret (op v)"
    by (simp add: fs'_def ReadItem_WriteItem_4)
  with run sb show ?thesis by blast
qed

lemma is_chain_valid: "is_chain fs cs \<Longrightarrow> c \<in> set cs \<Longrightarrow> valid_clus fs c"
proof (induction cs)
  case Nil
  then show ?case by simp
next
  case (Cons a cs)
  then show ?case by (cases cs) auto
qed

lemma is_chain_tl: "is_chain fs (c # d # cs) \<Longrightarrow> is_chain fs (d # cs)"
  by simp

lemma is_chain_cong:
  assumes fi: "finfo fs' = finfo fs"
  shows "(\<And>x. x \<in> set cs \<Longrightarrow> GetNextClus fs' x = GetNextClus fs x)
           \<Longrightarrow> is_chain fs' cs = is_chain fs cs"
proof (induction cs)
  case Nil
  then show ?case by simp
next
  case (Cons a cs)
  have v: "valid_clus fs' a = valid_clus fs a" by (simp add: valid_clus_def fi)
  from Cons.prems have a: "GetNextClus fs' a = GetNextClus fs a" by simp
  show ?case
  proof (cases cs)
    case Nil
    then show ?thesis by (simp add: v a)
  next
    case (Cons d ds)
    from Cons.IH Cons.prems have "is_chain fs' cs = is_chain fs cs" by simp
    then show ?thesis by (simp add: Cons v a)
  qed
qed

lemma is_chain_unique:
  assumes wf: "wf_volume fs"
  shows "is_chain fs (x # ys) \<Longrightarrow> is_chain fs (x # zs) \<Longrightarrow> ys = zs"
proof (induction ys arbitrary: x zs)
  case Nil
  show ?case
  proof (cases zs)
    case Nil
    then show ?thesis by simp
  next
    case (Cons z zs')
    with Nil.prems(2) have n: "GetNextClus fs x = Ret z" and "valid_clus fs z"
      by (cases zs', simp_all)+
    from valid_lt_FATEND [OF wf this(2)] n Nil.prems(1) show ?thesis
      by (simp add: not_le [symmetric])
  qed
next
  case (Cons y ys')
  from Cons.prems(1) have n: "GetNextClus fs x = Ret y" and vy: "valid_clus fs y"
    and ch: "is_chain fs (y # ys')"
    by (cases ys', simp_all)+
  show ?case
  proof (cases zs)
    case Nil
    with Cons.prems(2) n valid_lt_FATEND [OF wf vy] show ?thesis
      by (simp add: not_le [symmetric])
  next
    case (Cons z zs')
    with Cons.prems(2) n have "z = y" and "is_chain fs (y # zs')" by simp_all
    with Cons.IH [OF ch] Cons show ?thesis by simp
  qed
qed

lemma is_chain_suffix:
  "is_chain fs cs \<Longrightarrow> x \<in> set cs \<Longrightarrow> \<exists>ys. is_chain fs (x # ys) \<and> length ys < length cs"
proof (induction cs)
  case Nil
  then show ?case by simp
next
  case (Cons c cs)
  show ?case
  proof (cases "x = c")
    case True
    with Cons.prems(1) show ?thesis by auto
  next
    case False
    with Cons.prems(2) have x: "x \<in> set cs" by simp
    then obtain d ds where cs: "cs = d # ds" by (cases cs) auto
    with Cons.prems(1) have "is_chain fs cs" by simp
    from Cons.IH [OF this x] show ?thesis by auto
  qed
qed

lemma is_chain_distinct:
  assumes wf: "wf_volume fs"
  shows "is_chain fs cs \<Longrightarrow> distinct cs"
proof (induction cs)
  case Nil
  then show ?case by simp
next
  case (Cons c cs)
  show ?case
  proof (cases cs)
    case Nil
    then show ?thesis by simp
  next
    case (Cons d ds)
    with Cons.prems have ch: "is_chain fs cs" by simp
    have "c \<notin> set cs"
    proof
      assume "c \<in> set cs"
      from is_chain_suffix [OF ch this] obtain ys where ys: "is_chain fs (c # ys)"
        and len: "length ys < length cs" by blast
      from is_chain_unique [OF wf ys Cons.prems] len show False by simp
    qed
    with Cons.IH [OF ch] show ?thesis by simp
  qed
qed

lemma free_chain_ok:
  "wf_volume fs \<Longrightarrow> is_chain fs (c # cs) \<Longrightarrow> GetNFreeClus fs = Ret v
    \<Longrightarrow> \<exists>fs'. free_chain_loop fs c = Some (Ret fs')
          \<and> same_but fs fs' (fat_region fs \<union> count_region fs)
          \<and> GetNFreeClus fs' = Ret (v + of_nat (length (c # cs)))"
proof (induction cs arbitrary: fs c v)
  case Nil
  note wf = Nil.prems(1)
  from Nil.prems(2) have vc: "valid_clus fs c" by simp
  from Nil.prems(2) obtain t where t: "GetNextClus fs c = Ret t" "\<not> t < FATEND"
    by (auto split: res.splits simp: not_less)
  from SetNextClus_ok [OF wf vc, of 0] obtain fs1 where s1: "SetNextClus fs c 0 = Some (Ret fs1)"
    and sb1: "same_but fs fs1 (fat_region fs)" by blast
  note wf1 = wf [folded same_but_wf(1) [OF sb1]]
  have g1: "GetNFreeClus fs1 = Ret v"
    using GetNFreeClus_same [OF wf sb1 regions_disjoint(1) [OF wf]] Nil.prems(3) by simp
  from UpdateClusCount_ok [OF wf1 g1, of "\<lambda>v. v + 1"] obtain fs2
    where u: "UpdateClusCount fs1 (\<lambda>v. v + 1) = Ret fs2"
      and sb2: "same_but fs1 fs2 (count_region fs1)" and g2: "GetNFreeClus fs2 = Ret (v + 1)"
    by blast
  have run: "free_chain_loop fs c = Some (Ret fs2)"
    by (subst free_chain_loop.simps) (simp add: t s1 u)
  have "same_but fs fs2 (fat_region fs \<union> count_region fs)"
    using sb1 sb2 by (rule same_but_trans) (simp_all add: region_cong [OF same_but_fields(1) [OF sb1]])
  with run g2 show ?case by auto
next
  case (Cons d ds)
  note wf = Cons.prems(1)
  from Cons.prems(2) have vc: "valid_clus fs c" and n: "GetNextClus fs c = Ret d"
    and ch: "is_chain fs (d # ds)"
    by simp_all
  from is_chain_valid [OF ch] have vd: "valid_clus fs d" by simp
  from valid_lt_FATEND [OF wf vd] have lt: "d < FATEND" .
  from is_chain_distinct [OF wf Cons.prems(2)] have nc: "c \<notin> set (d # ds)" by simp
  from SetNextClus_ok [OF wf vc, of 0] obtain fs1 where s1: "SetNextClus fs c 0 = Some (Ret fs1)"
    and sb1: "same_but fs fs1 (fat_region fs)"
    and o1: "\<forall>m. valid_clus fs m \<and> m \<noteq> c \<longrightarrow> GetNextClus fs1 m = GetNextClus fs m"
    by blast
  note wf1 = wf [folded same_but_wf(1) [OF sb1]]
  note f1 = same_but_fields [OF sb1]
  have g1: "GetNFreeClus fs1 = Ret v"
    using GetNFreeClus_same [OF wf sb1 regions_disjoint(1) [OF wf]] Cons.prems(3) by simp
  from UpdateClusCount_ok [OF wf1 g1, of "\<lambda>v. v + 1"] obtain fs2
    where u: "UpdateClusCount fs1 (\<lambda>v. v + 1) = Ret fs2"
      and sb2: "same_but fs1 fs2 (count_region fs1)" and g2: "GetNFreeClus fs2 = Ret (v + 1)"
    by blast
  note wf2 = wf1 [folded same_but_wf(1) [OF sb2]]
  note f2 = same_but_fields [OF sb2]
  have ch2: "is_chain fs2 (d # ds)"
  proof -
    have "GetNextClus fs2 x = GetNextClus fs x" if x: "x \<in> set (d # ds)" for x
    proof -
      from is_chain_valid [OF ch x] have vx: "valid_clus fs x" .
      then have vx1: "valid_clus fs1 x" by (simp add: same_but_wf(2) [OF sb1])
      from x nc have "x \<noteq> c" by auto
      with o1 vx have "GetNextClus fs1 x = GetNextClus fs x" by simp
      moreover have "GetNextClus fs2 x = GetNextClus fs1 x"
        using wf1 vx1 sb2 by (rule GetNextClus_same) (rule regions_disjoint(2) [OF wf1])
      ultimately show ?thesis by simp
    qed
    then have "is_chain fs2 (d # ds) = is_chain fs (d # ds)"
      by (intro is_chain_cong) (simp_all add: f1 f2)
    with ch show ?thesis by simp
  qed
  from Cons.IH [OF wf2 ch2 g2] obtain fs' where r: "free_chain_loop fs2 d = Some (Ret fs')"
    and sb3: "same_but fs2 fs' (fat_region fs2 \<union> count_region fs2)"
    and g3: "GetNFreeClus fs' = Ret (v + 1 + of_nat (length (d # ds)))"
    by blast
  have run: "free_chain_loop fs c = Some (Ret fs')"
    by (subst free_chain_loop.simps) (simp add: n s1 u lt r)
  have sb12: "same_but fs fs2 (fat_region fs \<union> count_region fs)"
    using sb1 sb2 by (rule same_but_trans) (simp_all add: region_cong [OF f1(1)])
  have fi2: "finfo fs2 = finfo fs" by (simp add: f1 f2)
  have "same_but fs fs' (fat_region fs \<union> count_region fs)"
    using sb12 sb3 by (rule same_but_trans) (simp_all add: region_cong [OF fi2])
  with run g3 show ?case by (auto simp: add.assoc)
qed

section \<open>Removing a file with clusters\<close>

lemma closed_for_reads:
  "GetNextClus (closed_for fs nm) x = GetNextClus fs x"
  "GetNFreeClus (closed_for fs nm) = GetNFreeClus fs"
  "wf_volume (closed_for fs nm) = wf_volume fs"
  "fat_region (closed_for fs nm) = fat_region fs"
  "count_region (closed_for fs nm) = count_region fs"
  "data_start (closed_for fs nm) = data_start fs"
  by (simp_all add: GetNextClus_def GetNFreeClus_def ReadValue1_eq out_of_range_def
        wf_volume_def bps_def data_start_def fat_region_def count_region_def count_pos_def
        closed_for_fields)

lemma closed_for_chain: "is_chain (closed_for fs nm) cs = is_chain fs cs"
  by (rule is_chain_cong) (simp_all add: closed_for_fields closed_for_reads)

lemma poke_same_but:
  "same_but fs (fs\<lparr>mFilesys := poke n bs (mFilesys fs)\<rparr>) {n ..< n + length bs}"
  by (simp add: same_but_def poke_def)

lemma data_above_regions:
  assumes wf: "wf_volume fs" and n: "data_start fs \<le> n"
  shows "{n ..< n + k} \<inter> count_region fs = {}" and "{n ..< n + k} \<inter> fat_region fs = {}"
    and "(fat_region fs \<union> count_region fs) \<inter> {n ..< n + k} = {}"
  using count_pos_facts(2) [OF wf] n
  by (auto simp: count_region_def fat_region_def)

text \<open>
  Removing a file with clusters. On a well-formed volume, in a current directory whose cluster chain is
  valid, let the listing of the directory hold a file \<open>e\<close> named \<open>nm\<close> (the first entry
  with that name that is not a directory) whose clusters form the chain
  \<open>clus e # cs\<close>, of length \<open>L = length (clus e # cs)\<close>, at least 1. Then \<^verbatim>\<open>rm nm\<close>
  returns, and the free-cluster count stored in the FS information sector, \<open>v\<close>
  before, reads \<open>v + L\<close> afterwards, in the 32-bit arithmetic of the stored field.
\<close>

lemma rm_frees_chain:
  assumes wf: "wf_volume fs"
    and dir: "is_chain fs (cwd fs # dcs)"
    and listed: "GetFileList fs (cwd fs) False = Some (Ret list)"
    and found: "find (\<lambda>e. GetShortName e = nm \<and> \<not> (attr e AND DIRECT = DIRECT))
                  (map FileEntry_copy list) = Some e"
    and chain: "is_chain fs (clus e # cs)"
    and count: "GetNFreeClus fs = Ret v"
  shows "\<exists>fs'. Rm fs clock beyond [nm] = Some (Ret fs')
           \<and> GetNFreeClus fs' = Ret (v + of_nat (length (clus e # cs)))"
proof -
  define n where "n = unat (entryLoc e)"
  define e' where "e' = e\<lparr>name := (name e)[0 := 0xe5]\<rparr>"
  define fs0 where "fs0 = closed_for fs nm"
  from find_copy [OF found] obtain e0 where e0: "e0 \<in> set list" "e = FileEntry_copy e0" by blast
  from GetFileList_chain [OF wf dir listed] e0(1) have ok: "slot_ok fs False e0" by blast
  then have pos: "data_start fs \<le> n" "n + 32 \<le> unat (TotSec (finfo fs)) * bps fs"
    "n + 32 < filesys_size fs"
    by (simp_all add: slot_ok_def n_def e0(2) copy_fields)
  from pos(2) wf_volumeD(9) [OF wf] have w: "n + 32 \<le> 2 ^ 32" by linarith
  have loc': "unat (entryLoc e') = n" by (simp add: e'_def n_def)
  from is_chain_valid [OF chain] have "valid_clus fs (clus e)" by simp
  then have nz: "clus e \<noteq> 0" by (auto simp: valid_clus_def)
  have wf0: "wf_volume fs0" by (simp add: fs0_def closed_for_reads wf)
  have ch0: "is_chain fs0 (clus e # cs)" by (simp add: fs0_def closed_for_chain chain)
  have g0: "GetNFreeClus fs0 = Ret v" by (simp add: fs0_def closed_for_reads count)
  from free_chain_ok [OF wf0 ch0 g0] obtain fs1 where fr: "free_chain_loop fs0 (clus e) = Some (Ret fs1)"
    and sb1: "same_but fs0 fs1 (fat_region fs0 \<union> count_region fs0)"
    and g1: "GetNFreeClus fs1 = Ret (v + of_nat (length (clus e # cs)))"
    by blast
  note f1 = same_but_fields [OF sb1]
  have wf1: "wf_volume fs1" using wf0 by (simp add: same_but_wf(1) [OF sb1])
  have ds1: "data_start fs1 = data_start fs"
    by (simp add: same_but_wf(4) [OF sb1] fs0_def closed_for_reads)
  define fs2 where "fs2 = fs1\<lparr>mFilesys := poke n (entry_bytes (clock 0) (beyond 0) e' (mFilesys fs1 (n + 12)))
                              (mFilesys fs1)\<rparr>"
  have sv: "SaveFileEntry fs1 (clock 0) (beyond 0) e' = Ret fs2"
    unfolding fs2_def loc' [symmetric]
    using pos w by (intro SaveFileEntry_eq) (simp_all add: loc' f1 fs0_def closed_for_fields)
  have rm: "Rm fs clock beyond [nm] = Some (Ret fs2)"
    using fr sv nz by (simp add: Rm_single [OF listed found] fs0_def e'_def)
  have sb2: "same_but fs1 fs2 {n ..< n + 32}"
    using poke_same_but [of fs1 n "entry_bytes (clock 0) (beyond 0) e' (mFilesys fs1 (n + 12))"]
    by (simp add: fs2_def length_entry_bytes)
  have "GetNFreeClus fs2 = GetNFreeClus fs1"
    using wf1 sb2 by (rule GetNFreeClus_same) (rule data_above_regions(1) [OF wf1], simp add: ds1 pos)
  with rm g1 show ?thesis by simp
qed

lemma vol_hello_chain: "is_chain (vol_fs vol_mem) [3, 4]"
  by (simp add: valid_clus_def GetEndOfFat_def vol_defs io_eval fat_eval)

lemma vol_count: "GetNFreeClus (vol_fs vol_mem) = Ret 4"
  by (simp add: GetNFreeClus_def vol_defs io_eval)

lemma vol_find_hello:
  "find (\<lambda>e. GetShortName e = str ''hello.txt'' \<and> \<not> (attr e AND DIRECT = DIRECT))
     (map FileEntry_copy root_list) = Some (root_list ! 0)"
  by (simp add: root_list_def GetShortName_def DIRECT_def FileEntry_copy_def mk_clus_def
        str_def tolower_def Let_def)

text \<open>
  On the small volume: \<^verbatim>\<open>rm hello.txt\<close> in the root directory frees the
  chain of clusters 3 and 4, and the count goes from 4 to 6.
\<close>

lemma rm_frees_chain_example:
  "wf_volume (vol_fs vol_mem) \<and> is_chain (vol_fs vol_mem) (cwd (vol_fs vol_mem) # [])
   \<and> GetFileList (vol_fs vol_mem) (cwd (vol_fs vol_mem)) False = Some (Ret root_list)
   \<and> find (\<lambda>e. GetShortName e = str ''hello.txt'' \<and> \<not> (attr e AND DIRECT = DIRECT))
        (map FileEntry_copy root_list) = Some (root_list ! 0)
   \<and> is_chain (vol_fs vol_mem) (clus (root_list ! 0) # [4])
   \<and> GetNFreeClus (vol_fs vol_mem) = Ret 4
   \<and> (\<exists>fs'. Rm (vol_fs vol_mem) (\<lambda>i. noon) (\<lambda>i j. 0) [str ''hello.txt''] = Some (Ret fs')
          \<and> GetNFreeClus fs' = Ret 6)"
proof -
  have a: "wf_volume (vol_fs vol_mem)" by (rule vol_wf)
  have b: "is_chain (vol_fs vol_mem) (cwd (vol_fs vol_mem) # [])"
    using vol_root_chain by (simp only: vol_cwd)
  have c: "GetFileList (vol_fs vol_mem) (cwd (vol_fs vol_mem)) False = Some (Ret root_list)"
    by (simp add: vol_cwd vol_root_listing)
  have e: "clus (root_list ! 0) = 3" by (simp add: root_list_def)
  have d: "is_chain (vol_fs vol_mem) (clus (root_list ! 0) # [4])"
    using vol_hello_chain by (simp only: e)
  from rm_frees_chain [OF a b c vol_find_hello d vol_count,
      where clock = "\<lambda>i. noon" and beyond = "\<lambda>i j. 0"]
  have "\<exists>fs'. Rm (vol_fs vol_mem) (\<lambda>i. noon) (\<lambda>i j. 0) [str ''hello.txt''] = Some (Ret fs')
          \<and> GetNFreeClus fs' = Ret 6"
    by simp
  with a b c d vol_find_hello vol_count show ?thesis by blast
qed

section \<open>The bytes of a removed entry\<close>

lemma ReadItem_1_byte: "(ReadItem m b 1 :: 8 word) = m b"
  by (simp add: ReadItem_Suc_0 byte_ucast_id)

lemma ReadItem_2_bytes:
  "(ucast (ReadItem m b 2 :: 16 word) :: 8 word) = m b"
  "(ucast (drop_bit 8 (ReadItem m b 2 :: 16 word)) :: 8 word) = m (b + 1)"
  by (simp_all add: ReadItem_2, (rule bit_word_eqI, auto simp: bit_simps dest: bit_imp_le_length)+)

lemma ReadItem_4_bytes:
  "(ucast (ReadItem m b 4 :: 32 word) :: 8 word) = m b"
  "(ucast (drop_bit 8 (ReadItem m b 4 :: 32 word)) :: 8 word) = m (b + 1)"
  "(ucast (drop_bit 16 (ReadItem m b 4 :: 32 word)) :: 8 word) = m (b + 2)"
  "(ucast (drop_bit 24 (ReadItem m b 4 :: 32 word)) :: 8 word) = m (b + 3)"
  by (simp_all add: ReadItem_4, (rule bit_word_eqI, auto simp: bit_simps dest: bit_imp_le_length)+)

lemma upt_0_32:
  "[0..<32] = [0, 1, 2, 3, 4, 5, 6, 7, 8, 9, 10, 11, 12, 13, 14, 15, 16, 17, 18, 19, 20, 21, 22,
     23, 24, 25, 26, 27, 28, 29, 30, 31]"
  by (simp add: upt_rec)

lemma copy_idem: "FileEntry_copy (FileEntry_copy a) = FileEntry_copy a"
  by (simp add: FileEntry_copy_def)

lemma SetCurrentTime_name:
  "wrtTime (SetCurrentTime t (e\<lparr>name := x\<rparr>)) = wrtTime (SetCurrentTime t e)"
  "wrtDate (SetCurrentTime t (e\<lparr>name := x\<rparr>)) = wrtDate (SetCurrentTime t e)"
  by (simp_all add: SetCurrentTime_def Let_def)

lemma slot_decode:
  assumes ok: "slot_ok fs False e0" and lim: "unat (TotSec (finfo fs)) * bps fs < 2 ^ 32"
  shows "name e0 = c_string (map (\<lambda>i. mFilesys fs (unat (entryLoc e0) + i)) [0..<11])"
    and "attr e0 = mFilesys fs (unat (entryLoc e0) + 11)"
    and "hi e0 = ReadItem (mFilesys fs) (unat (entryLoc e0) + 20) 2"
    and "lo e0 = ReadItem (mFilesys fs) (unat (entryLoc e0) + 26) 2"
    and "size_fe e0 = ReadItem (mFilesys fs) (unat (entryLoc e0) + 28) 4"
proof -
  from ok have r: "read_entry fs False (entryLoc e0) [] = Ret [e0]"
    and p: "unat (entryLoc e0) + 32 \<le> unat (TotSec (finfo fs)) * bps fs"
    by (simp_all add: slot_ok_def)
  from p lim have w: "unat (entryLoc e0) + 32 \<le> 2 ^ 32" by linarith
  note U = entry_field_pos [OF w]
  from read_entry_decode [OF r] obtain nm a h l s where
    d: "(ReadValue fs 11 (unat (entryLoc e0)) 1 :: 8 word list res) = Ret nm"
      "(ReadValue1 fs (unat (entryLoc e0) + 11) 1 :: 8 word res) = Ret a"
      "(ReadValue1 fs (unat (entryLoc e0) + 20) 2 :: 16 word res) = Ret h"
      "(ReadValue1 fs (unat (entryLoc e0) + 26) 2 :: 16 word res) = Ret l"
      "(ReadValue1 fs (unat (entryLoc e0) + 28) 4 :: 32 word res) = Ret s"
    and e: "e0 = \<lparr>name = c_string nm, attr = a, lo = l, hi = h, wrtTime = 0, wrtDate = 0,
              size_fe = s, clus = mk_clus l h, entryLoc = entryLoc e0, openInfo = 0\<rparr>"
    unfolding U by blast
  from d(1) have nm: "nm = map (\<lambda>i. mFilesys fs (unat (entryLoc e0) + i)) [0..<11]"
    by (simp add: ReadValue_11 split: if_splits)
  from d(2) have a: "a = mFilesys fs (unat (entryLoc e0) + 11)"
    by (simp add: ReadValue1_eq ReadItem_Suc_0 byte_ucast_id split: if_splits)
  from d(3) have h: "h = ReadItem (mFilesys fs) (unat (entryLoc e0) + 20) 2"
    by (simp add: ReadValue1_eq split: if_splits)
  from d(4) have l: "l = ReadItem (mFilesys fs) (unat (entryLoc e0) + 26) 2"
    by (simp add: ReadValue1_eq split: if_splits)
  from d(5) have s: "s = ReadItem (mFilesys fs) (unat (entryLoc e0) + 28) 4"
    by (simp add: ReadValue1_eq split: if_splits)
  have f: "name e0 = c_string nm" "attr e0 = a" "hi e0 = h" "lo e0 = l" "size_fe e0 = s"
    by (subst e, simp)+
  from f nm show "name e0 = c_string (map (\<lambda>i. mFilesys fs (unat (entryLoc e0) + i)) [0..<11])"
    by simp
  from f a show "attr e0 = mFilesys fs (unat (entryLoc e0) + 11)" by simp
  from f h show "hi e0 = ReadItem (mFilesys fs) (unat (entryLoc e0) + 20) 2" by simp
  from f l show "lo e0 = ReadItem (mFilesys fs) (unat (entryLoc e0) + 26) 2" by simp
  from f s show "size_fe e0 = ReadItem (mFilesys fs) (unat (entryLoc e0) + 28) 4" by simp
qed

lemma c_string_full: "length (c_string xs) = length xs \<Longrightarrow> c_string xs = xs"
proof -
  assume a: "length (c_string xs) = length xs"
  have "c_string xs = take (length (c_string xs)) xs"
    unfolding c_string_def by (rule takeWhile_eq_take)
  with a show ?thesis by simp
qed

lemma entry_bytes_tombstone:
  assumes ok: "slot_ok fs False e0" and lim: "unat (TotSec (finfo fs)) * bps fs < 2 ^ 32"
    and e: "e = FileEntry_copy e0" and full: "length (name e) = 11"
  shows "entry_bytes t beyond (e\<lparr>name := (name e)[0 := 0xe5]\<rparr>) (mFilesys fs (unat (entryLoc e) + 12))
     = tombstone (slot_bytes fs (unat (entryLoc e)))
         (wrtTime (SetCurrentTime t e)) (wrtDate (SetCurrentTime t e))"
proof -
  define n where "n = unat (entryLoc e)"
  define m where "m = mFilesys fs"
  note d = slot_decode [OF ok lim, folded m_def]
  have n0: "unat (entryLoc e0) = n" by (simp add: n_def e FileEntry_copy_def)
  have f: "name e = name e0" "attr e = attr e0" "hi e = hi e0" "lo e = lo e0"
    "size_fe e = size_fe e0"
    by (simp_all add: e FileEntry_copy_def)
  from full d(1) have "name e = map (\<lambda>i. m (n + i)) [0..<11]"
    using c_string_full [of "map (\<lambda>i. m (n + i)) [0..<11]"] by (simp add: f n0)
  then have nm: "name e = [m n, m (n + 1), m (n + 2), m (n + 3), m (n + 4), m (n + 5), m (n + 6),
      m (n + 7), m (n + 8), m (n + 9), m (n + 10)]"
    by (simp add: upt_0_11)
  have names: "map (name_at beyond ((name e)[0 := 0xe5])) [0..<11]
     = [0xe5, m (n + 1), m (n + 2), m (n + 3), m (n + 4), m (n + 5), m (n + 6),
      m (n + 7), m (n + 8), m (n + 9), m (n + 10)]"
    by (simp add: nm upt_0_11 name_at_def)
  have b: "ucast (hi e) = m (n + 20)" "ucast (drop_bit 8 (hi e)) = m (n + 21)"
    "ucast (lo e) = m (n + 26)" "ucast (drop_bit 8 (lo e)) = m (n + 27)"
    "ucast (size_fe e) = m (n + 28)" "ucast (drop_bit 8 (size_fe e)) = m (n + 29)"
    "ucast (drop_bit 16 (size_fe e)) = m (n + 30)" "ucast (drop_bit 24 (size_fe e)) = m (n + 31)"
    "attr e = m (n + 11)"
    by (simp_all add: f d n0 ReadItem_2_bytes ReadItem_4_bytes add_ac)
  show ?thesis
    unfolding n_def [symmetric] m_def [symmetric]
    by (simp add: entry_bytes_def names b SetCurrentTime_name tombstone_def slot_bytes_def
          upt_0_32 m_def [symmetric])
qed

lemma slot_bytes_poke: "length bs = 32 \<Longrightarrow> slot_bytes (fs\<lparr>mFilesys := poke n bs m\<rparr>) n = bs"
  by (rule nth_equalityI) (simp_all add: slot_bytes_def poke_def)

lemma slot_bytes_same:
  assumes "same_but fs fs' A" and "A \<inter> {n ..< n + 32} = {}"
  shows "slot_bytes fs' n = slot_bytes fs n"
proof -
  have "mFilesys fs' (n + j) = mFilesys fs (n + j)" if "j < 32" for j
  proof -
    from that have "n + j \<in> {n ..< n + 32}" by simp
    with assms(2) have "n + j \<notin> A" by blast
    with assms(1) show ?thesis by (simp add: same_but_def)
  qed
  then show ?thesis by (simp add: slot_bytes_def)
qed

section \<open>Removing a file or a directory: the slot afterwards\<close>

lemma GetNFreeClus_returns:
  assumes wf: "wf_volume fs"
  shows "\<exists>v. GetNFreeClus fs = Ret v"
  using GetNFreeClus_eq [OF wf refl refl] by blast

lemma Rm_tombstone:
  assumes wf: "wf_volume fs"
    and dir: "is_chain fs (cwd fs # dcs)"
    and listed: "GetFileList fs (cwd fs) False = Some (Ret list)"
    and found: "find (\<lambda>e. GetShortName e = nm \<and> \<not> (attr e AND DIRECT = DIRECT))
                  (map FileEntry_copy list) = Some e"
    and full: "length (name e) = 11"
    and chain: "clus e = 0 \<or> is_chain fs (clus e # cs)"
  shows "\<exists>fs'. Rm fs clock beyond [nm] = Some (Ret fs')
           \<and> slot_bytes fs' (unat (entryLoc e))
               = tombstone (slot_bytes fs (unat (entryLoc e)))
                   (wrtTime (SetCurrentTime (clock 0) e)) (wrtDate (SetCurrentTime (clock 0) e))"
proof -
  define n where "n = unat (entryLoc e)"
  define e' where "e' = e\<lparr>name := (name e)[0 := 0xe5]\<rparr>"
  define fs0 where "fs0 = closed_for fs nm"
  from find_copy [OF found] obtain e0 where e0: "e0 \<in> set list" "e = FileEntry_copy e0" by blast
  from GetFileList_chain [OF wf dir listed] e0(1) have ok: "slot_ok fs False e0" by blast
  then have pos: "data_start fs \<le> n" "n + 32 \<le> unat (TotSec (finfo fs)) * bps fs"
    "n + 32 < filesys_size fs"
    by (simp_all add: slot_ok_def n_def e0(2) copy_fields)
  from pos(2) wf_volumeD(9) [OF wf] have w: "n + 32 \<le> 2 ^ 32" by linarith
  have loc': "unat (entryLoc e') = n" by (simp add: e'_def n_def)
  have wf0: "wf_volume fs0" by (simp add: fs0_def closed_for_reads wf)
  have "\<exists>fs1. (if clus e \<noteq> 0 then free_chain_loop fs0 (clus e) else Some (Ret fs0)) = Some (Ret fs1)
          \<and> same_but fs0 fs1 (fat_region fs0 \<union> count_region fs0)"
  proof (cases "clus e = 0")
    case True
    then show ?thesis by (simp add: same_but_refl)
  next
    case False
    with chain have "is_chain fs (clus e # cs)" by simp
    then have ch0: "is_chain fs0 (clus e # cs)" by (simp add: fs0_def closed_for_chain)
    from GetNFreeClus_returns [OF wf0] obtain v where g0: "GetNFreeClus fs0 = Ret v" by blast
    from free_chain_ok [OF wf0 ch0 g0] False show ?thesis by auto
  qed
  then obtain fs1 where
    fr: "(if clus e \<noteq> 0 then free_chain_loop fs0 (clus e) else Some (Ret fs0)) = Some (Ret fs1)"
    and sb1: "same_but fs0 fs1 (fat_region fs0 \<union> count_region fs0)"
    by blast
  note f1 = same_but_fields [OF sb1]
  have reg: "fat_region fs0 = fat_region fs" "count_region fs0 = count_region fs"
    by (simp_all add: fs0_def closed_for_reads)
  have m1: "mFilesys fs1 a = mFilesys fs a" if "data_start fs \<le> a" for a
  proof -
    from data_above_regions(3) [OF wf that, of 1] have "a \<notin> fat_region fs0 \<union> count_region fs0"
      by (auto simp: reg)
    with sb1 show ?thesis by (simp add: same_but_def fs0_def closed_for_fields)
  qed
  define fs2 where "fs2 = fs1\<lparr>mFilesys := poke n (entry_bytes (clock 0) (beyond 0) e' (mFilesys fs1 (n + 12)))
                              (mFilesys fs1)\<rparr>"
  have sv: "SaveFileEntry fs1 (clock 0) (beyond 0) e' = Ret fs2"
    unfolding fs2_def loc' [symmetric]
    using pos w by (intro SaveFileEntry_eq) (simp_all add: loc' f1 fs0_def closed_for_fields)
  have rm: "Rm fs clock beyond [nm] = Some (Ret fs2)"
    using fr sv unfolding Rm_single [OF listed found] fs0_def e'_def by simp
  from pos(1) have "mFilesys fs1 (n + 12) = mFilesys fs (n + 12)" by (intro m1) simp
  then have "slot_bytes fs2 n = entry_bytes (clock 0) (beyond 0) e' (mFilesys fs (n + 12))"
    by (simp add: fs2_def slot_bytes_poke length_entry_bytes)
  also have "\<dots> = tombstone (slot_bytes fs n)
                   (wrtTime (SetCurrentTime (clock 0) e)) (wrtDate (SetCurrentTime (clock 0) e))"
    unfolding e'_def n_def
    by (rule entry_bytes_tombstone [OF ok wf_volumeD(9) [OF wf] e0(2) full])
  finally show ?thesis using rm unfolding n_def by blast
qed

lemma Rmdir_single:
  assumes listed: "GetFileList fs (cwd fs) False = Some (Ret list)"
    and found: "find (\<lambda>e. GetShortName e = nm) (map FileEntry_copy list) = Some e"
    and isdir: "attr e AND DIRECT = DIRECT" and dot: "name_at beyond nm 0 \<noteq> 0x2E"
    and sub: "GetFileList fs (clus e) False = Some (Ret sub)" and len: "length sub \<le> 2"
  shows "Rmdir fs t beyond [nm]
     = (case SaveFileEntry fs t beyond (e\<lparr>name := (name e)[0 := 0xe5]\<rparr>) of
          Throw \<Rightarrow> Some Throw
        | Ret fs1 \<Rightarrow> if clus e \<noteq> 0 then free_chain_loop fs1 (clus e) else Some (Ret fs1))"
proof -
  from find_copy [OF found] obtain e0 where "e = FileEntry_copy e0" by blast
  then have c: "FileEntry_copy e = e" by (simp add: copy_idem)
  show ?thesis
    using listed found isdir dot sub len
    by (simp add: Rmdir_def Let_def c split: res.splits)
qed

lemma Rmdir_tombstone:
  assumes wf: "wf_volume fs"
    and dir: "is_chain fs (cwd fs # dcs)"
    and listed: "GetFileList fs (cwd fs) False = Some (Ret list)"
    and found: "find (\<lambda>e. GetShortName e = nm) (map FileEntry_copy list) = Some e"
    and isdir: "attr e AND DIRECT = DIRECT" and dot: "name_at beyond nm 0 \<noteq> 0x2E"
    and sub: "GetFileList fs (clus e) False = Some (Ret sub)" and len: "length sub \<le> 2"
    and full: "length (name e) = 11"
    and chain: "clus e = 0 \<or> is_chain fs (clus e # cs)"
  shows "\<exists>fs'. Rmdir fs t beyond [nm] = Some (Ret fs')
           \<and> slot_bytes fs' (unat (entryLoc e))
               = tombstone (slot_bytes fs (unat (entryLoc e)))
                   (wrtTime (SetCurrentTime t e)) (wrtDate (SetCurrentTime t e))"
proof -
  define n where "n = unat (entryLoc e)"
  define e' where "e' = e\<lparr>name := (name e)[0 := 0xe5]\<rparr>"
  from find_copy [OF found] obtain e0 where e0: "e0 \<in> set list" "e = FileEntry_copy e0" by blast
  from GetFileList_chain [OF wf dir listed] e0(1) have ok: "slot_ok fs False e0" by blast
  then have pos: "data_start fs \<le> n" "n + 32 \<le> unat (TotSec (finfo fs)) * bps fs"
    "n + 32 < filesys_size fs"
    by (simp_all add: slot_ok_def n_def e0(2) copy_fields)
  from pos(2) wf_volumeD(9) [OF wf] have w: "n + 32 \<le> 2 ^ 32" by linarith
  have loc': "unat (entryLoc e') = n" by (simp add: e'_def n_def)
  define fs1 where "fs1 = fs\<lparr>mFilesys := poke n (entry_bytes t beyond e' (mFilesys fs (n + 12)))
                              (mFilesys fs)\<rparr>"
  have sv: "SaveFileEntry fs t beyond e' = Ret fs1"
    unfolding fs1_def loc' [symmetric]
    using pos w by (intro SaveFileEntry_eq) (simp_all add: loc')
  have sb1: "same_but fs fs1 {n ..< n + 32}"
    using poke_same_but [of fs n "entry_bytes t beyond e' (mFilesys fs (n + 12))"]
    by (simp add: fs1_def length_entry_bytes)
  note f1 = same_but_fields [OF sb1]
  have wf1: "wf_volume fs1" using wf by (simp add: same_but_wf(1) [OF sb1])
  have b1: "slot_bytes fs1 n = tombstone (slot_bytes fs n)
                   (wrtTime (SetCurrentTime t e)) (wrtDate (SetCurrentTime t e))"
  proof -
    have "slot_bytes fs1 n = entry_bytes t beyond e' (mFilesys fs (n + 12))"
      by (simp add: fs1_def slot_bytes_poke length_entry_bytes)
    also have "\<dots> = tombstone (slot_bytes fs n)
                   (wrtTime (SetCurrentTime t e)) (wrtDate (SetCurrentTime t e))"
      unfolding e'_def n_def
      by (rule entry_bytes_tombstone [OF ok wf_volumeD(9) [OF wf] e0(2) full])
    finally show ?thesis .
  qed
  have "\<exists>fs2. (if clus e \<noteq> 0 then free_chain_loop fs1 (clus e) else Some (Ret fs1)) = Some (Ret fs2)
          \<and> slot_bytes fs2 n = slot_bytes fs1 n"
  proof (cases "clus e = 0")
    case True
    then show ?thesis by simp
  next
    case False
    with chain have ch: "is_chain fs (clus e # cs)" by simp
    have "is_chain fs1 (clus e # cs) = is_chain fs (clus e # cs)"
    proof (rule is_chain_cong [OF f1(1)])
      fix x assume "x \<in> set (clus e # cs)"
      from is_chain_valid [OF ch this] have "valid_clus fs x" .
      with wf show "GetNextClus fs1 x = GetNextClus fs x"
        using sb1 by (rule GetNextClus_same) (rule data_above_regions(2) [OF wf pos(1)])
    qed
    with ch have ch1: "is_chain fs1 (clus e # cs)" by simp
    from GetNFreeClus_returns [OF wf1] obtain v where g1: "GetNFreeClus fs1 = Ret v" by blast
    from free_chain_ok [OF wf1 ch1 g1] obtain fs2
      where r: "free_chain_loop fs1 (clus e) = Some (Ret fs2)"
        and sb2: "same_but fs1 fs2 (fat_region fs1 \<union> count_region fs1)"
      by blast
    have "slot_bytes fs2 n = slot_bytes fs1 n"
      using sb2
    proof (rule slot_bytes_same)
      from pos(1) have "data_start fs1 \<le> n" by (simp add: same_but_wf(4) [OF sb1])
      from data_above_regions(3) [OF wf1 this]
      show "(fat_region fs1 \<union> count_region fs1) \<inter> {n ..< n + 32} = {}" .
    qed
    with r False show ?thesis by simp
  qed
  then obtain fs2 where
    "(if clus e \<noteq> 0 then free_chain_loop fs1 (clus e) else Some (Ret fs1)) = Some (Ret fs2)"
    and "slot_bytes fs2 n = slot_bytes fs1 n" by blast
  with b1 sv show ?thesis
    unfolding Rmdir_single [OF listed found isdir dot sub len] e'_def [symmetric] n_def [symmetric]
    by simp
qed

text \<open>
  Claim C3, amended. On a well-formed volume, in a current directory whose cluster
  chain is valid, let \<open>e\<close> be an entry of the listing whose stored name fills its 11
  bytes (no NUL byte) and whose clusters, if it has any, form a valid chain. If \<open>e\<close>
  is the file that \<^verbatim>\<open>rm nm\<close> removes, or the directory that \<^verbatim>\<open>rmdir nm\<close> removes (its
  listing returns and has at most 2 entries), the command returns and the 32 bytes
  of the slot afterwards are: \<open>0xE5\<close>; bytes 1 to 12 as before; bytes 13 to 19 zero;
  bytes 20 and 21 as before; bytes 22 to 25 the time and date of the removal; bytes
  26 to 31 as before.
\<close>

theorem C3_tombstone_amended:
  assumes wf: "wf_volume fs"
    and dir: "is_chain fs (cwd fs # dcs)"
    and listed: "GetFileList fs (cwd fs) False = Some (Ret list)"
    and full: "length (name e) = 11"
    and chain: "clus e = 0 \<or> is_chain fs (clus e # cs)"
  shows "(find (\<lambda>e. GetShortName e = nm \<and> \<not> (attr e AND DIRECT = DIRECT))
            (map FileEntry_copy list) = Some e
          \<longrightarrow> (\<exists>fs'. Rm fs clock beyond [nm] = Some (Ret fs')
                 \<and> slot_bytes fs' (unat (entryLoc e))
                     = tombstone (slot_bytes fs (unat (entryLoc e)))
                         (wrtTime (SetCurrentTime (clock 0) e))
                         (wrtDate (SetCurrentTime (clock 0) e))))
       \<and> (find (\<lambda>e. GetShortName e = nm) (map FileEntry_copy list) = Some e
            \<and> attr e AND DIRECT = DIRECT \<and> name_at beyond' nm 0 \<noteq> 0x2E
            \<and> GetFileList fs (clus e) False = Some (Ret sub) \<and> length sub \<le> 2
          \<longrightarrow> (\<exists>fs'. Rmdir fs t beyond' [nm] = Some (Ret fs')
                 \<and> slot_bytes fs' (unat (entryLoc e))
                     = tombstone (slot_bytes fs (unat (entryLoc e)))
                         (wrtTime (SetCurrentTime t e)) (wrtDate (SetCurrentTime t e))))"
  using Rm_tombstone [OF wf dir listed _ full chain]
    Rmdir_tombstone [OF wf dir listed _ _ _ _ _ full chain]
  by blast

lemma vol_sub_listing: "GetFileList (vol_fs vol_mem) 5 False = Some (Ret sub_list)"
  unfolding GetFileList_def
  apply (subst GetFileList_loop.simps)
  apply (simp add: vol_defs io_eval entry_eval fat_eval upt_0_16 sub_list_def)
  done

lemma vol_sub_chain: "is_chain (vol_fs vol_mem) [5]"
  by (simp add: valid_clus_def GetEndOfFat_def vol_defs io_eval fat_eval)

lemma vol_find_sub:
  "find (\<lambda>e. GetShortName e = str ''sub'') (map FileEntry_copy root_list) = Some (root_list ! 2)"
  by (simp add: root_list_def GetShortName_def FileEntry_copy_def mk_clus_def
        str_def tolower_def Let_def)

lemma noon_stamp:
  "wrtTime (SetCurrentTime noon e) = 0x61EF" "wrtDate (SetCurrentTime noon e) = 0x5D5E"
  by (simp_all add: SetCurrentTime_def noon_def Let_def)

lemma noon_bytes:
  "(ucast (wrtTime (SetCurrentTime noon e)) :: 8 word) = 0xEF"
  "(ucast (drop_bit 8 (wrtTime (SetCurrentTime noon e))) :: 8 word) = 0x61"
  "(ucast (wrtDate (SetCurrentTime noon e)) :: 8 word) = 0x5E"
  "(ucast (drop_bit 8 (wrtDate (SetCurrentTime noon e))) :: 8 word) = 0x5D"
  by (simp_all add: noon_stamp)

lemma vol_hello_slot:
  "slot_bytes (vol_fs vol_mem) 2048
     = [0x48, 0x45, 0x4C, 0x4C, 0x4F, 0x20, 0x20, 0x20, 0x54, 0x58, 0x54, 0x20, 0x00,
        0x64, 0x20, 0x6C, 0x21, 0x5A, 0x21, 0x5A, 0x00, 0x00, 0x20, 0x6C, 0x21, 0x5A,
        0x03, 0x00, 0x58, 0x02, 0x00, 0x00]"
  by (simp add: slot_bytes_def upt_0_32 vol_defs)

lemma vol_sub_slot:
  "slot_bytes (vol_fs vol_mem) 2112
     = [0x53, 0x55, 0x42, 0x20, 0x20, 0x20, 0x20, 0x20, 0x20, 0x20, 0x20, 0x10, 0x00,
        0x64, 0x20, 0x6C, 0x21, 0x5A, 0x21, 0x5A, 0x00, 0x00, 0x20, 0x6C, 0x21, 0x5A,
        0x05, 0x00, 0x00, 0x00, 0x00, 0x00]"
  by (simp add: slot_bytes_def upt_0_32 vol_defs)

lemma vol_rm_hello:
  "\<exists>fs'. Rm (vol_fs vol_mem) (\<lambda>i. noon) (\<lambda>i j. 0) [str ''hello.txt''] = Some (Ret fs')
     \<and> slot_bytes fs' 2048
         = [0xe5, 0x45, 0x4C, 0x4C, 0x4F, 0x20, 0x20, 0x20, 0x54, 0x58, 0x54, 0x20, 0x00,
            0x00, 0x00, 0x00, 0x00, 0x00, 0x00, 0x00, 0x00, 0x00, 0xEF, 0x61, 0x5E, 0x5D,
            0x03, 0x00, 0x58, 0x02, 0x00, 0x00]"
proof -
  have b: "is_chain (vol_fs vol_mem) (cwd (vol_fs vol_mem) # [])"
    using vol_root_chain by (simp only: vol_cwd)
  have c: "GetFileList (vol_fs vol_mem) (cwd (vol_fs vol_mem)) False = Some (Ret root_list)"
    by (simp add: vol_cwd vol_root_listing)
  have d: "clus (root_list ! 0) = 0 \<or> is_chain (vol_fs vol_mem) (clus (root_list ! 0) # [4])"
    using vol_hello_chain by (simp add: root_list_def)
  have f: "length (name (root_list ! 0)) = 11" by (simp add: root_list_def str_def)
  have e: "unat (entryLoc (root_list ! 0)) = 2048" by (simp add: root_list_def)
  from Rm_tombstone [OF vol_wf b c vol_find_hello f d,
      where clock = "\<lambda>i. noon" and beyond = "\<lambda>i j. 0"]
  show ?thesis
    unfolding e vol_hello_slot tombstone_def noon_bytes by simp
qed


lemma slot_bytes_nth: "j < 32 \<Longrightarrow> slot_bytes fs n ! j = mFilesys fs (n + j)"
  by (simp add: slot_bytes_def)

text \<open>
  Claim C3 as stated fails: on the small volume \<^verbatim>\<open>rm hello.txt\<close>, run at noon, leaves
  \<open>0xE5\<close> in the first byte of the slot at 2048, and also changes bytes 13 to 19 (the
  creation and access stamps, \<open>0x64\<close> at 2061 before, \<open>0\<close> after) and bytes 22 to 25 (the
  write stamp, \<open>0x20\<close> at 2070 before, \<open>0xEF\<close> after).
\<close>

theorem C3_rm_overwrites_stamps:
  "slot_bytes (vol_fs vol_mem) 2048
     = [0x48, 0x45, 0x4C, 0x4C, 0x4F, 0x20, 0x20, 0x20, 0x54, 0x58, 0x54, 0x20, 0x00,
        0x64, 0x20, 0x6C, 0x21, 0x5A, 0x21, 0x5A, 0x00, 0x00, 0x20, 0x6C, 0x21, 0x5A,
        0x03, 0x00, 0x58, 0x02, 0x00, 0x00]
   \<and> (case Rm (vol_fs vol_mem) (\<lambda>i. noon) (\<lambda>i j. 0) [str ''hello.txt''] of
        Some (Ret fs') \<Rightarrow>
          slot_bytes fs' 2048
            = [0xe5, 0x45, 0x4C, 0x4C, 0x4F, 0x20, 0x20, 0x20, 0x54, 0x58, 0x54, 0x20, 0x00,
               0x00, 0x00, 0x00, 0x00, 0x00, 0x00, 0x00, 0x00, 0x00, 0xEF, 0x61, 0x5E, 0x5D,
               0x03, 0x00, 0x58, 0x02, 0x00, 0x00]
          \<and> mFilesys fs' 2061 = 0x00 \<and> mFilesys fs' 2070 = 0xEF
      | Some Throw \<Rightarrow> False
      | None \<Rightarrow> False)
   \<and> mFilesys (vol_fs vol_mem) 2061 = 0x64 \<and> mFilesys (vol_fs vol_mem) 2070 = 0x20"
proof -
  from vol_rm_hello obtain fs' where
    r: "Rm (vol_fs vol_mem) (\<lambda>i. noon) (\<lambda>i j. 0) [str ''hello.txt''] = Some (Ret fs')"
    and b: "slot_bytes fs' 2048
         = [0xe5, 0x45, 0x4C, 0x4C, 0x4F, 0x20, 0x20, 0x20, 0x54, 0x58, 0x54, 0x20, 0x00,
            0x00, 0x00, 0x00, 0x00, 0x00, 0x00, 0x00, 0x00, 0x00, 0xEF, 0x61, 0x5E, 0x5D,
            0x03, 0x00, 0x58, 0x02, 0x00, 0x00]"
    by blast
  from slot_bytes_nth [of 13 fs' 2048] slot_bytes_nth [of 22 fs' 2048]
  have c: "mFilesys fs' 2061 = 0x00" "mFilesys fs' 2070 = 0xEF"
    by (simp_all add: b)
  from slot_bytes_nth [of 13 "vol_fs vol_mem" 2048] slot_bytes_nth [of 22 "vol_fs vol_mem" 2048]
  have d: "mFilesys (vol_fs vol_mem) 2061 = 0x64" "mFilesys (vol_fs vol_mem) 2070 = 0x20"
    by (simp_all add: vol_hello_slot)
  from r b c d vol_hello_slot show ?thesis by simp
qed

text \<open>
  The amended claim on the small volume: \<^verbatim>\<open>rm hello.txt\<close> and \<^verbatim>\<open>rmdir sub\<close> in the root
  directory, at noon.
\<close>

theorem C3_tombstone_amended_witness:
  "wf_volume (vol_fs vol_mem) \<and> is_chain (vol_fs vol_mem) (cwd (vol_fs vol_mem) # [])
   \<and> GetFileList (vol_fs vol_mem) (cwd (vol_fs vol_mem)) False = Some (Ret root_list)
   \<and> length (name (root_list ! 0)) = 11
   \<and> is_chain (vol_fs vol_mem) (clus (root_list ! 0) # [4])
   \<and> find (\<lambda>e. GetShortName e = str ''hello.txt'' \<and> \<not> (attr e AND DIRECT = DIRECT))
        (map FileEntry_copy root_list) = Some (root_list ! 0)
   \<and> (\<exists>fs'. Rm (vol_fs vol_mem) (\<lambda>i. noon) (\<lambda>i j. 0) [str ''hello.txt''] = Some (Ret fs')
          \<and> slot_bytes fs' 2048
              = [0xe5, 0x45, 0x4C, 0x4C, 0x4F, 0x20, 0x20, 0x20, 0x54, 0x58, 0x54, 0x20, 0x00,
                 0x00, 0x00, 0x00, 0x00, 0x00, 0x00, 0x00, 0x00, 0x00, 0xEF, 0x61, 0x5E, 0x5D,
                 0x03, 0x00, 0x58, 0x02, 0x00, 0x00])
   \<and> length (name (root_list ! 2)) = 11
   \<and> is_chain (vol_fs vol_mem) (clus (root_list ! 2) # [])
   \<and> find (\<lambda>e. GetShortName e = str ''sub'') (map FileEntry_copy root_list) = Some (root_list ! 2)
   \<and> attr (root_list ! 2) AND DIRECT = DIRECT \<and> name_at (\<lambda>j. 0) (str ''sub'') 0 \<noteq> 0x2E
   \<and> GetFileList (vol_fs vol_mem) (clus (root_list ! 2)) False = Some (Ret sub_list)
   \<and> length sub_list \<le> 2
   \<and> (\<exists>fs'. Rmdir (vol_fs vol_mem) noon (\<lambda>j. 0) [str ''sub''] = Some (Ret fs')
          \<and> slot_bytes fs' 2112
              = [0xe5, 0x55, 0x42, 0x20, 0x20, 0x20, 0x20, 0x20, 0x20, 0x20, 0x20, 0x10, 0x00,
                 0x00, 0x00, 0x00, 0x00, 0x00, 0x00, 0x00, 0x00, 0x00, 0xEF, 0x61, 0x5E, 0x5D,
                 0x05, 0x00, 0x00, 0x00, 0x00, 0x00])"
proof -
  have a: "wf_volume (vol_fs vol_mem)" by (rule vol_wf)
  have b: "is_chain (vol_fs vol_mem) (cwd (vol_fs vol_mem) # [])"
    using vol_root_chain by (simp only: vol_cwd)
  have c: "GetFileList (vol_fs vol_mem) (cwd (vol_fs vol_mem)) False = Some (Ret root_list)"
    by (simp add: vol_cwd vol_root_listing)
  have f0: "length (name (root_list ! 0)) = 11" and f2: "length (name (root_list ! 2)) = 11"
    by (simp_all add: root_list_def str_def)
  have c0: "clus (root_list ! 0) = 3" and c2: "clus (root_list ! 2) = 5"
    by (simp_all add: root_list_def)
  have d0: "is_chain (vol_fs vol_mem) (clus (root_list ! 0) # [4])"
    using vol_hello_chain by (simp only: c0)
  have d2: "is_chain (vol_fs vol_mem) (clus (root_list ! 2) # [])"
    using vol_sub_chain by (simp only: c2)
  have l0: "unat (entryLoc (root_list ! 0)) = 2048" and l2: "unat (entryLoc (root_list ! 2)) = 2112"
    by (simp_all add: root_list_def)
  have g: "attr (root_list ! 2) AND DIRECT = DIRECT" "name_at (\<lambda>j. 0) (str ''sub'') 0 \<noteq> 0x2E"
    "length sub_list \<le> 2"
    by (simp_all add: root_list_def DIRECT_def name_at_def str_def sub_list_def)
  have s: "GetFileList (vol_fs vol_mem) (clus (root_list ! 2)) False = Some (Ret sub_list)"
    using vol_sub_listing by (simp only: c2)
  from C3_tombstone_amended [OF a b c f0 disjI2 [OF d0],
      where nm = "str ''hello.txt''" and clock = "\<lambda>i. noon" and beyond = "\<lambda>i j. 0"]
    vol_find_hello
  have r1: "\<exists>fs'. Rm (vol_fs vol_mem) (\<lambda>i. noon) (\<lambda>i j. 0) [str ''hello.txt''] = Some (Ret fs')
          \<and> slot_bytes fs' 2048
              = [0xe5, 0x45, 0x4C, 0x4C, 0x4F, 0x20, 0x20, 0x20, 0x54, 0x58, 0x54, 0x20, 0x00,
                 0x00, 0x00, 0x00, 0x00, 0x00, 0x00, 0x00, 0x00, 0x00, 0xEF, 0x61, 0x5E, 0x5D,
                 0x03, 0x00, 0x58, 0x02, 0x00, 0x00]"
    unfolding l0 vol_hello_slot tombstone_def noon_bytes by simp
  from C3_tombstone_amended [OF a b c f2 disjI2 [OF d2],
      where nm = "str ''sub''" and sub = sub_list and t = noon and beyond' = "\<lambda>j. 0"]
    vol_find_sub g s
  have r2: "\<exists>fs'. Rmdir (vol_fs vol_mem) noon (\<lambda>j. 0) [str ''sub''] = Some (Ret fs')
          \<and> slot_bytes fs' 2112
              = [0xe5, 0x55, 0x42, 0x20, 0x20, 0x20, 0x20, 0x20, 0x20, 0x20, 0x20, 0x10, 0x00,
                 0x00, 0x00, 0x00, 0x00, 0x00, 0x00, 0x00, 0x00, 0x00, 0xEF, 0x61, 0x5E, 0x5D,
                 0x05, 0x00, 0x00, 0x00, 0x00, 0x00]"
    unfolding l2 vol_sub_slot tombstone_def noon_bytes by simp
  from a b c f0 d0 vol_find_hello r1 f2 d2 vol_find_sub g s r2 show ?thesis by blast
qed

section \<open>Navigation: a segment that does not resolve\<close>

lemma NavToDir_loop_step:
  assumes "spec_step fs c seg = Enters c'" and "i \<noteq> en" and "\<not> (i = 0 \<and> seg = str ''/'')"
  shows "NavToDir_loop fs (seg # rest) i en c = NavToDir_loop fs rest (i + 1) en c'"
  using assms
  by (auto simp: spec_step_def split: if_splits option.splits res.splits)

lemma NavToDir_loop_fails:
  assumes "spec_step fs c seg = Fails" and "i \<noteq> en" and "\<not> (i = 0 \<and> seg = str ''/'')"
  shows "NavToDir_loop fs (seg # rest) i en c = Some Throw"
  using assms
  by (auto simp: spec_step_def split: if_splits option.splits res.splits)

lemma NavToDir_loop_walk:
  "spec_walk fs c pre = Some c' \<Longrightarrow> i + length pre < en
    \<Longrightarrow> (i = 0 \<Longrightarrow> pre \<noteq> [] \<Longrightarrow> hd pre \<noteq> str ''/'')
    \<Longrightarrow> NavToDir_loop fs (pre @ rest) i en c = NavToDir_loop fs rest (i + length pre) en c'"
proof (induction pre arbitrary: i c)
  case Nil
  then show ?case by simp
next
  case (Cons seg pre)
  from Cons.prems(1) obtain c1 where s: "spec_step fs c seg = Enters c1"
    and w: "spec_walk fs c1 pre = Some c'"
    by (auto split: step_result.splits)
  from Cons.prems(2) have ne: "i \<noteq> en" by simp
  from Cons.prems(3) have first: "\<not> (i = 0 \<and> seg = str ''/'')" by auto
  have "NavToDir_loop fs ((seg # pre) @ rest) i en c = NavToDir_loop fs (pre @ rest) (i + 1) en c1"
    using NavToDir_loop_step [OF s ne first] by simp
  also have "\<dots> = NavToDir_loop fs rest (i + 1 + length pre) en c'"
    using w Cons.prems(2) by (intro Cons.IH) simp_all
  finally show ?case by (simp add: add.assoc add.commute)
qed

lemma sub_mod_nonzero: "0 < b \<Longrightarrow> b < M \<Longrightarrow> (0 + M - b) mod M \<noteq> (0::nat)"
proof -
  assume "0 < b" "b < M"
  then have "M - b < M" "0 < M - b" by simp_all
  then have "(M - b) mod M = M - b" by simp
  with \<open>0 < M - b\<close> show ?thesis by simp
qed

lemma sub_size_t_0: "0 < n \<Longrightarrow> n < 2 ^ 64 \<Longrightarrow> sub_size_t 0 n \<noteq> 0"
  unfolding sub_size_t_def by (rule sub_mod_nonzero)

text \<open>
  Claim C9. Let the parsed path be the segments \<open>pre\<close>, then \<open>seg\<close>, then \<open>post\<close>, after
  the root marker if the path is absolute. If walking \<open>pre\<close> from the starting
  directory (the root for an absolute path, the current directory otherwise) leads to
  the directory \<open>c\<close>, and \<open>seg\<close> does not resolve there (no directory entry of \<open>c\<close> has
  that name, or \<open>c\<close> cannot be enumerated), then \<^verbatim>\<open>NavToDir\<close> throws, \<^verbatim>\<open>Cd\<close> catches the
  exception and returns the state it was given: the current directory cluster and
  the cached location string are unchanged. The parsed path is shorter than
  \<open>2 ^ 64\<close> segments, as every \<^verbatim>\<open>std::list\<close> is.
\<close>

theorem C9_Cd_unresolved_segment:
  assumes len: "length (ParseAddress target) < 2 ^ 64"
    and path: "ParseAddress target = (if absolute then [str ''/''] else []) @ pre @ seg # post"
    and rel: "\<not> absolute \<Longrightarrow> hd (pre @ [seg]) \<noteq> str ''/''"
    and before: "spec_walk fs (if absolute then RootClus (finfo fs) else cwd fs) pre = Some c"
    and unresolved: "spec_step fs c seg = Fails"
  shows "Cd fs [target] = Some (Ret fs)"
proof -
  define list where "list = ParseAddress target"
  define en where "en = length list"
  have en0: "0 < en" by (simp add: en_def list_def path)
  have nz: "sub_size_t 0 en \<noteq> 0"
    using en0 len by (intro sub_size_t_0) (simp_all add: en_def list_def)
  have "NavToDir_loop fs list 0 en (cwd fs) = Some Throw"
  proof (cases absolute)
    case True
    then have l: "list = str ''/'' # (pre @ seg # post)" by (simp add: list_def path)
    then have e: "en = 1 + length pre + 1 + length post" by (simp add: en_def)
    from before True have w: "spec_walk fs (RootClus (finfo fs)) pre = Some c" by simp
    have "NavToDir_loop fs list 0 en (cwd fs)
            = NavToDir_loop fs (pre @ seg # post) 1 en (RootClus (finfo fs))"
      using en0 by (simp add: l)
    also have "\<dots> = NavToDir_loop fs (seg # post) (1 + length pre) en c"
      using w by (rule NavToDir_loop_walk) (simp_all add: e)
    also have "\<dots> = Some Throw"
      using unresolved by (rule NavToDir_loop_fails) (simp_all add: e)
    finally show ?thesis .
  next
    case False
    then have l: "list = pre @ seg # post" by (simp add: list_def path)
    then have e: "en = length pre + 1 + length post" by (simp add: en_def)
    from before False have w: "spec_walk fs (cwd fs) pre = Some c" by simp
    from rel False have h: "hd (pre @ [seg]) \<noteq> str ''/''" by simp
    have "NavToDir_loop fs list 0 en (cwd fs) = NavToDir_loop fs (seg # post) (0 + length pre) en c"
      unfolding l using w
    proof (rule NavToDir_loop_walk)
      show "0 + length pre < en" by (simp add: e)
      assume "pre \<noteq> []"
      with h show "hd pre \<noteq> str ''/''" by simp
    qed
    also have "\<dots> = Some Throw"
      using unresolved
    proof (rule NavToDir_loop_fails)
      show "0 + length pre \<noteq> en" by (simp add: e)
      from h show "\<not> (0 + length pre = 0 \<and> seg = str ''/'')" by auto
    qed
    finally show ?thesis .
  qed
  then have "NavToDir fs list 0 en = Some Throw"
    using nz en0 by (simp add: NavToDir_def en_def)
  then show ?thesis
    unfolding list_def en_def by (rule Cd_failed_navigation)
qed

lemma parse_up_nodir_x:
  "ParseAddress (str ''../nodir/x'') = [str ''..'', str ''nodir'', str ''x'']"
  by (simp add: ParseAddress_def str_def tolower_def find_first_of_def npos_def sub_size_t_def
        Let_def)

lemma sub_fs_listing:
  "GetFileList sub_fs 5 False = Some (Ret sub_list)"
  "GetFileList sub_fs 2 False = Some (Ret root_list)"
  using vol_sub_listing vol_root_listing
  by (auto intro: GetFileList_img simp: sub_fs_def)

lemma sub_fs_fields: "cwd sub_fs = 5" "RootClus (finfo sub_fs) = 2" "location sub_fs = str ''/sub''"
  by (simp_all add: sub_fs_def vol_fs_def vol_info_def)

lemma sub_fs_up: "spec_step sub_fs 5 (str ''..'') = Enters 2"
proof -
  have "find (\<lambda>e. GetShortName e = str ''..'' \<and> IsDir e) (map FileEntry_copy sub_list)
          = Some (sub_list ! 1)"
    by (simp add: sub_list_def GetShortName_def IsDir_def DIRECT_def FileEntry_copy_def
          mk_clus_def str_def tolower_def Let_def)
  moreover have "clus (sub_list ! 1) = 0" by (simp add: sub_list_def)
  moreover have "str ''..'' \<noteq> str ''.''" by (simp add: str_def)
  ultimately show ?thesis
    by (simp add: spec_step_def sub_fs_listing sub_fs_fields)
qed

lemma sub_fs_nodir: "spec_step sub_fs 2 (str ''nodir'') = Fails"
proof -
  have "find (\<lambda>e. GetShortName e = str ''nodir'' \<and> IsDir e) (map FileEntry_copy root_list)
          = None"
    by (simp add: root_list_def GetShortName_def IsDir_def DIRECT_def FileEntry_copy_def
          mk_clus_def str_def tolower_def Let_def)
  moreover have "str ''nodir'' \<noteq> str ''.''" by (simp add: str_def)
  ultimately show ?thesis
    by (simp add: spec_step_def sub_fs_listing sub_fs_fields)
qed

text \<open>\<^verbatim>\<open>cd sub\<close> from the root of the small volume leads to the state \<open>sub_fs\<close>.\<close>

lemma parse_sub: "ParseAddress (str ''sub'') = [str ''sub'']"
  by (simp add: ParseAddress_def str_def tolower_def find_first_of_def npos_def Let_def)

lemma vol_nav_sub: "NavToDir (vol_fs vol_mem) [str ''sub''] 0 (Suc 0) = Some (Ret 5)"
proof -
  have f: "find (\<lambda>e. GetShortName e = str ''sub'' \<and> IsDir e) (map FileEntry_copy root_list)
             = Some (root_list ! 2)"
    by (simp add: root_list_def GetShortName_def IsDir_def DIRECT_def FileEntry_copy_def
          mk_clus_def str_def tolower_def Let_def)
  have c: "clus (root_list ! 2) = 5" by (simp add: root_list_def)
  have n: "str ''sub'' \<noteq> str ''/''" "str ''sub'' \<noteq> str ''.''" by (simp_all add: str_def)
  show ?thesis
    by (simp add: NavToDir_def sub_size_t_def vol_cwd vol_root_listing f c n)
qed

lemma vol_sub_path:
  assumes m: "mFilesys fs = vol_mem" and sz: "filesys_size fs = 6144"
    and fi: "finfo fs = vol_info" and c: "cwd fs = 5"
  shows "GenPathName fs 5 = Some (Ret (str ''/sub''))"
proof -
  have l5: "GetFileList fs 5 False = Some (Ret sub_list)"
    using vol_sub_listing by (rule GetFileList_img) (simp_all add: m sz fi vol_fs_def)
  have l2: "GetFileList fs 2 False = Some (Ret root_list)"
    using vol_root_listing by (rule GetFileList_img) (simp_all add: m sz fi vol_fs_def)
  have r: "RootClus (finfo fs) = 2" by (simp add: fi vol_info_def)
  have e1: "GenPathName_entries fs 5 (map FileEntry_copy sub_list) (5, 5, []) = (2, 5, [])"
    by (simp add: sub_list_def GetShortName_def FileEntry_copy_def mk_clus_def str_def
          tolower_def Let_def r)
  have e2: "GenPathName_entries fs 2 (map FileEntry_copy root_list) (2, 5, [])
              = (2, 2, str ''sub'')"
    by (simp add: root_list_def GetShortName_def FileEntry_copy_def mk_clus_def str_def
          tolower_def Let_def r)
  show ?thesis
    unfolding GenPathName_def
    apply (subst GenPathName_loop.simps)
    apply (simp add: c r l5 e1)
    apply (subst GenPathName_loop.simps)
    apply (simp add: c r l2 e2)
    apply (subst GenPathName_loop.simps)
    apply (simp add: r str_def)
    done
qed

lemma vol_cd_sub: "Cd (vol_fs vol_mem) [str ''sub''] = Some (Ret sub_fs)"
proof -
  have "GenPathName ((vol_fs vol_mem)\<lparr>cwd := 5\<rparr>) 5 = Some (Ret (str ''/sub''))"
    by (rule vol_sub_path) (simp_all add: vol_fs_def)
  then show ?thesis
    by (simp add: Cd_def parse_sub vol_nav_sub sub_fs_def)
qed

text \<open>
  The theorem on the small volume, in the directory \<^verbatim>\<open>SUB\<close> (cluster 5, location
  \<^verbatim>\<open>/sub\<close>), reached by \<^verbatim>\<open>cd sub\<close>: for \<^verbatim>\<open>cd ../nodir/x\<close> the segment \<^verbatim>\<open>..\<close> leads to the root, where no
  directory is named \<^verbatim>\<open>nodir\<close>; the command leaves the current directory at cluster 5
  and the location at \<^verbatim>\<open>/sub\<close>.
\<close>

theorem C9_Cd_unresolved_segment_witness:
  "Cd (vol_fs vol_mem) [str ''sub''] = Some (Ret sub_fs)
   \<and> length (ParseAddress (str ''../nodir/x'')) < 2 ^ 64
   \<and> ParseAddress (str ''../nodir/x'') = [] @ [str ''..''] @ str ''nodir'' # [str ''x'']
   \<and> hd ([str ''..''] @ [str ''nodir'']) \<noteq> str ''/''
   \<and> spec_walk sub_fs (cwd sub_fs) [str ''..''] = Some 2
   \<and> spec_step sub_fs 2 (str ''nodir'') = Fails
   \<and> Cd sub_fs [str ''../nodir/x''] = Some (Ret sub_fs)
   \<and> cwd sub_fs = 5 \<and> location sub_fs = str ''/sub''"
proof -
  have a: "length (ParseAddress (str ''../nodir/x'')) < 2 ^ 64"
    by (simp add: parse_up_nodir_x)
  have b: "ParseAddress (str ''../nodir/x'')
             = (if False then [str ''/''] else []) @ [str ''..''] @ str ''nodir'' # [str ''x'']"
    by (simp add: parse_up_nodir_x)
  have c: "hd ([str ''..''] @ [str ''nodir'']) \<noteq> str ''/''" by (simp add: str_def)
  have d: "spec_walk sub_fs (if False then RootClus (finfo sub_fs) else cwd sub_fs) [str ''..'']
             = Some 2"
    by (simp add: sub_fs_fields sub_fs_up)
  from C9_Cd_unresolved_segment [OF a b c d sub_fs_nodir]
  have "Cd sub_fs [str ''../nodir/x''] = Some (Ret sub_fs)" .
  with a b c d sub_fs_nodir sub_fs_fields vol_cd_sub show ?thesis by simp
qed

section \<open>A directory on the last cluster of the volume\<close>

lemmas full_defs = full_mem_def vol_defs

lemma full_root_chain: "is_chain (vol_fs full_mem) [2, 9]"
  by (simp add: valid_clus_def GetEndOfFat_def full_defs io_eval fat_eval)

lemma full_last_cluster:
  "clus_pos (vol_fs full_mem) 9 = 5632" "clus_size (vol_fs full_mem) = 512"
  "filesys_size (vol_fs full_mem) = 6144"
  by (simp_all add: clus_pos_def clus_size_def GetFirstSectorOfClus_def vol_fs_def vol_info_def)

lemma full_listing_throws: "GetFileList (vol_fs full_mem) 2 False = Some Throw"
  unfolding GetFileList_def
  apply (subst GetFileList_loop.simps)
  apply (simp add: full_defs io_eval entry_eval fat_eval upt_0_16)
  apply (subst GetFileList_loop.simps)
  apply (simp add: full_defs io_eval entry_eval fat_eval upt_0_16)
  done

lemma vol_open: "openTable (vol_fs m) = []"
  by (simp add: vol_fs_def)

lemma full_rm_throws: "Rm (vol_fs full_mem) clock beyond [nm] = Some Throw"
  by (simp add: Rm_def Rm_one_def Rm_remove_def vol_cwd vol_open full_listing_throws)

lemma full_entries:
  "read_entry (vol_fs full_mem) False 2048 [] = Ret [root_list ! 0]"
  "read_entry (vol_fs full_mem) False 2080 [] = Ret [root_list ! 1]"
  by (simp_all add: full_defs io_eval entry_eval root_list_def)

lemma root_list_names:
  "GetShortName (root_list ! 0) = str ''hello.txt''" "GetShortName (root_list ! 1) = str ''empty''"
  "\<not> IsDir (root_list ! 0)" "\<not> IsDir (root_list ! 1)"
  "clus (root_list ! 0) = 3" "clus (root_list ! 1) = 0"
  by (simp_all add: root_list_def GetShortName_def IsDir_def DIRECT_def str_def tolower_def Let_def)

lemma full_hello_chain: "is_chain (vol_fs full_mem) [3, 4]"
  by (simp add: valid_clus_def GetEndOfFat_def full_defs io_eval fat_eval)

lemma full_count: "GetNFreeClus (vol_fs full_mem) = Ret 3"
  by (simp add: GetNFreeClus_def full_defs io_eval)

lemma full_cluster_end:
  "clus_pos (vol_fs full_mem) 9 + clus_size (vol_fs full_mem) = filesys_size (vol_fs full_mem)"
  by (simp add: full_last_cluster)

lemma full_cwd_listing:
  "GetFileList (vol_fs full_mem) (cwd (vol_fs full_mem)) False = Some Throw"
  using full_listing_throws by (simp only: vol_cwd)

text \<open>
  Claim C7. The claim says that \<^verbatim>\<open>rm\<close> adds the length of the chain to the free-cluster
  count for every file of the current directory. On the volume whose root directory
  has the clusters 2 and 9, the file \<^verbatim>\<open>HELLO.TXT\<close> is in the root directory (its entry is
  read from the slot at 2048) with the chain 3, 4 of length 2, and the count is 3.
  \<^verbatim>\<open>rm hello.txt\<close> lists the directory first: the read of the size field of the last
  slot of cluster 9, 4 bytes at 6140, ends where the image ends, and the bounds check
  of \<^verbatim>\<open>ReadValue\<close> refuses it. \<^verbatim>\<open>GetFileList\<close> throws, the exception leaves \<^verbatim>\<open>Rm\<close> before the
  loop that frees the chain, and nothing has been written: the count is still 3, not 5.
\<close>

theorem C7_rm_aborted_nothing_freed:
  "wf_volume (vol_fs full_mem) \<and> cwd (vol_fs full_mem) = 2 \<and> is_chain (vol_fs full_mem) [2, 9]
   \<and> clus_pos (vol_fs full_mem) 9 + clus_size (vol_fs full_mem) = filesys_size (vol_fs full_mem)
   \<and> read_entry (vol_fs full_mem) False 2048 [] = Ret [root_list ! 0]
   \<and> GetShortName (root_list ! 0) = str ''hello.txt'' \<and> \<not> IsDir (root_list ! 0)
   \<and> is_chain (vol_fs full_mem) [clus (root_list ! 0), 4]
   \<and> GetNFreeClus (vol_fs full_mem) = Ret 3
   \<and> GetFileList (vol_fs full_mem) (cwd (vol_fs full_mem)) False = Some Throw
   \<and> Rm (vol_fs full_mem) clock beyond [str ''hello.txt''] = Some Throw"
proof -
  have "is_chain (vol_fs full_mem) [clus (root_list ! 0), 4]"
    using full_hello_chain by (simp only: root_list_names)
  with vol_wf [of full_mem] vol_cwd [of full_mem] full_root_chain full_cluster_end
    full_entries(1) root_list_names(1,3) full_count full_cwd_listing
    full_rm_throws [of clock beyond "str ''hello.txt''"]
  show ?thesis by blast
qed

text \<open>
  Claim C10. The claim says that \<^verbatim>\<open>rm\<close> marks the entry of every file of the current
  directory whose first cluster is 0. On the same volume the file \<^verbatim>\<open>EMPTY\<close> is in the
  root directory (its entry is read from the slot at 2080) with first cluster 0.
  \<^verbatim>\<open>rm empty\<close> lists the directory first, \<^verbatim>\<open>GetFileList\<close> throws at the last slot of
  cluster 9, and the exception leaves \<^verbatim>\<open>Rm\<close> before \<^verbatim>\<open>SaveFileEntry\<close> is called: the
  first byte of the slot is still \<open>0x45\<close>, not \<open>0xE5\<close>.
\<close>

theorem C10_rm_aborted_entry_unmarked:
  "wf_volume (vol_fs full_mem) \<and> cwd (vol_fs full_mem) = 2 \<and> is_chain (vol_fs full_mem) [2, 9]
   \<and> clus_pos (vol_fs full_mem) 9 + clus_size (vol_fs full_mem) = filesys_size (vol_fs full_mem)
   \<and> read_entry (vol_fs full_mem) False 2080 [] = Ret [root_list ! 1]
   \<and> GetShortName (root_list ! 1) = str ''empty'' \<and> \<not> IsDir (root_list ! 1)
   \<and> clus (root_list ! 1) = 0
   \<and> mFilesys (vol_fs full_mem) 2080 = 0x45
   \<and> GetFileList (vol_fs full_mem) (cwd (vol_fs full_mem)) False = Some Throw
   \<and> Rm (vol_fs full_mem) clock beyond [str ''empty''] = Some Throw"
proof -
  have "mFilesys (vol_fs full_mem) 2080 = 0x45" by (simp add: full_defs)
  with vol_wf [of full_mem] vol_cwd [of full_mem] full_root_chain full_cluster_end
    full_entries(2) root_list_names(2,4,6) full_cwd_listing
    full_rm_throws [of clock beyond "str ''empty''"]
  show ?thesis by blast
qed

section \<open>Allocation on a volume of more than 4 GiB\<close>

lemmas big_defs = big_fs_def big_image_def big_info_def big_mem_def poke_def

lemma big_mounts: "Validate big_image = Ret big_fs"
  by (simp add: Validate_def big_defs rbind_def ReadValue1_eq ReadValue_2 out_of_range_def
        ReadItem_simps Let_def)

lemma big_fat_pos:
  "fat_pos big_info 0 2 = 16392" "fat_pos big_info 1 2 = 2166792"
  "fat_pos big_info 0 523765 = 2111444" "fat_pos big_info 1 523765 = 4261844"
  by (simp_all add: fat_pos_def GetThisFatSecN_def GetThisFatEntOff_def big_info_def)

lemma big_cluster:
  "unat (GetFirstSectorOfClus big_info 523765) * 512 = 4294983680"
  "ucast (BytesPerSec big_info) * GetFirstSectorOfClus big_info 523765 = (16384 :: 32 word)"
  "ucast (BytesPerSec big_info) * SecPerClus big_info = (8192 :: 32 word)"
  "GetEndOfFat big_info = 536974"
  by (simp_all add: GetFirstSectorOfClus_def GetEndOfFat_def big_info_def)

lemma ZeroOutCluster_loop_eq:
  "(\<And>i. i \<in> set is \<Longrightarrow> \<not> out_of_range fs 1 (unat (start + of_nat i)) 1)
    \<Longrightarrow> ZeroOutCluster_loop start is fs
        = Ret (fs\<lparr>mFilesys := (\<lambda>a. if a \<in> (\<lambda>i. unat (start + of_nat i)) ` set is then 0
                                   else mFilesys fs a)\<rparr>)"
proof (induction "is" arbitrary: fs)
  case Nil
  then show ?case by simp
next
  case (Cons i "is")
  define fs1 where "fs1 = fs\<lparr>mFilesys := (mFilesys fs)(unat (start + of_nat i) := 0)\<rparr>"
  from Cons.prems [of i] have w: "WriteValue1 fs (0 :: 8 word) (unat (start + of_nat i)) 1 = Ret fs1"
    by (simp add: WriteValue1_eq WriteItem_Suc_0 fs1_def)
  have "ZeroOutCluster_loop start is fs1
          = Ret (fs1\<lparr>mFilesys := (\<lambda>a. if a \<in> (\<lambda>i. unat (start + of_nat i)) ` set is then 0
                                   else mFilesys fs1 a)\<rparr>)"
  proof (rule Cons.IH)
    fix j assume "j \<in> set is"
    with Cons.prems [of j] show "\<not> out_of_range fs1 1 (unat (start + of_nat j)) 1"
      by (simp add: out_of_range_def fs1_def)
  qed
  moreover have "(\<lambda>a. if a \<in> (\<lambda>i. unat (start + of_nat i)) ` set is then 0 else mFilesys fs1 a)
      = (\<lambda>a. if a \<in> (\<lambda>i. unat (start + of_nat i)) ` set (i # is) then 0 else mFilesys fs a)"
    by (rule ext) (auto simp: fs1_def)
  ultimately have "ZeroOutCluster_loop start is fs1
          = Ret (fs\<lparr>mFilesys := (\<lambda>a. if a \<in> (\<lambda>i. unat (start + of_nat i)) ` set (i # is) then 0
                                   else mFilesys fs a)\<rparr>)"
    by (simp add: fs1_def)
  then show ?case
    unfolding ZeroOutCluster_loop.simps w rbind_def by simp
qed

lemma zero_range:
  assumes "unat (start :: 32 word) + n \<le> 2 ^ 32"
  shows "(\<lambda>i. unat (start + of_nat i)) ` set [0..<n] = {unat start ..< unat start + n}"
proof -
  have p: "unat (start + of_nat i) = unat start + i" if "i < n" for i
    using assms that by (intro unat_plus_small) linarith
  show ?thesis
  proof (rule set_eqI)
    fix a
    show "a \<in> (\<lambda>i. unat (start + of_nat i)) ` set [0..<n] \<longleftrightarrow> a \<in> {unat start ..< unat start + n}"
    proof
      assume "a \<in> (\<lambda>i. unat (start + of_nat i)) ` set [0..<n]"
      then obtain i where "i < n" "a = unat (start + of_nat i)" by auto
      with p show "a \<in> {unat start ..< unat start + n}" by simp
    next
      assume a: "a \<in> {unat start ..< unat start + n}"
      then have "a - unat start < n" by auto
      moreover from a p [OF this] have "a = unat (start + of_nat (a - unat start))" by simp
      ultimately show "a \<in> (\<lambda>i. unat (start + of_nat i)) ` set [0..<n]" by auto
    qed
  qed
qed

lemma ZeroOutCluster_eq:
  assumes lim: "clus_pos fs c + clus_size fs \<le> 2 ^ 32"
    and fit: "clus_pos fs c + clus_size fs < filesys_size fs"
  shows "ZeroOutCluster fs c
     = Ret (fs\<lparr>mFilesys := (\<lambda>a. if clus_pos fs c \<le> a \<and> a < clus_pos fs c + clus_size fs then 0
                                else mFilesys fs a)\<rparr>)"
proof -
  define start :: "32 word"
    where "start = ucast (BytesPerSec (finfo fs)) * GetFirstSectorOfClus (finfo fs) c"
  have s: "unat start = clus_pos fs c" by (simp add: start_def clus_pos_def)
  have n: "unat (ucast (BytesPerSec (finfo fs)) * SecPerClus (finfo fs) :: 32 word) = clus_size fs"
    by (simp add: clus_size_def)
  from lim have lim': "unat start + clus_size fs \<le> 2 ^ 32" by (simp add: s)
  note r = zero_range [OF lim']
  have "ZeroOutCluster_loop start [0..<clus_size fs] fs
        = Ret (fs\<lparr>mFilesys := (\<lambda>a. if a \<in> (\<lambda>i. unat (start + of_nat i)) ` set [0..<clus_size fs]
                                   then 0 else mFilesys fs a)\<rparr>)"
  proof (rule ZeroOutCluster_loop_eq)
    fix i assume "i \<in> set [0..<clus_size fs]"
    then have "unat (start + of_nat i) \<in> (\<lambda>i. unat (start + of_nat i)) ` set [0..<clus_size fs]"
      by (rule imageI)
    then have a: "unat (start + of_nat i) < clus_pos fs c + clus_size fs"
      unfolding r by (simp add: s)
    have "(2::nat) ^ 32 < 2 ^ 64" by simp
    with a lim have "1 * 1 + unat (start + of_nat i) < 2 ^ 64" by linarith
    then have "out_of_range fs 1 (unat (start + of_nat i)) 1
        \<longleftrightarrow> filesys_size fs \<le> 1 * 1 + unat (start + of_nat i)"
      by (rule out_of_range_iff)
    with a fit show "\<not> out_of_range fs 1 (unat (start + of_nat i)) 1" by simp
  qed
  then show ?thesis
    unfolding r by (simp add: ZeroOutCluster_def Let_def start_def [symmetric] n s)
qed

lemma big_fields:
  "finfo big_fs = big_info" "filesys_size big_fs = 4403200000" "mFilesys big_fs = big_mem"
  by (simp_all add: big_fs_def big_image_def)

lemma big_next:
  assumes "finfo fs = big_info" and "filesys_size fs = 4403200000"
  shows "GetNextClus fs 2 = Ret (ReadItem (mFilesys fs) 16392 4 AND FATMASK)"
    and "GetNextClus fs 523765 = Ret (ReadItem (mFilesys fs) 2111444 4 AND FATMASK)"
  unfolding GetNextClus_fat_pos
  by (simp_all add: assms big_fat_pos ReadValue1_eq out_of_range_def rbind_def)

lemma big_set:
  assumes "finfo fs = big_info" and "filesys_size fs = 4403200000"
  shows "SetNextClus fs 2 v
           = Some (Ret (fs\<lparr>mFilesys := WriteItem (WriteItem (mFilesys fs) 16392 4 (v AND FATMASK))
                                     2166792 4 (v AND FATMASK)\<rparr>))"
    and "SetNextClus fs 523765 v
           = Some (Ret (fs\<lparr>mFilesys := WriteItem (WriteItem (mFilesys fs) 2111444 4 (v AND FATMASK))
                                     4261844 4 (v AND FATMASK)\<rparr>))"
proof -
  have nf: "NumFats (finfo fs) = 2" by (simp add: assms big_info_def)
  show "SetNextClus fs 2 v
           = Some (Ret (fs\<lparr>mFilesys := WriteItem (WriteItem (mFilesys fs) 16392 4 (v AND FATMASK))
                                     2166792 4 (v AND FATMASK)\<rparr>))"
    by (simp add: SetNextClus_def SetNextClus_body_def nf upt_0_2 rbind_def ReadValue1_eq
        WriteValue1_eq out_of_range_def Let_def assms(2))
       (simp add: assms(1) big_fat_pos)
  show "SetNextClus fs 523765 v
           = Some (Ret (fs\<lparr>mFilesys := WriteItem (WriteItem (mFilesys fs) 2111444 4 (v AND FATMASK))
                                     4261844 4 (v AND FATMASK)\<rparr>))"
    by (simp add: SetNextClus_def SetNextClus_body_def nf upt_0_2 rbind_def ReadValue1_eq
        WriteValue1_eq out_of_range_def Let_def assms(2))
       (simp add: assms(1) big_fat_pos)
qed

lemma big_info_pos:
  "unat (ucast (BytesPerSec big_info) * FsInfo big_info + 492 :: 32 word) = 1004"
  "unat (FsInfo big_info * ucast (BytesPerSec big_info) + 488 :: 32 word) = 1000"
  by (simp_all add: big_info_def)

lemma big_start: "GetFATNxtFree big_fs = Ret 523765" "GetNFreeClus big_fs = Ret 536972"
  "GetNextClus big_fs 2 = Ret 0x0FFFFFFF" "GetNextClus big_fs 523765 = Ret 0"
  by (simp_all add: GetFATNxtFree_def GetNFreeClus_def big_next big_fields big_info_pos
        ReadValue1_eq out_of_range_def ReadItem_4 big_mem_def poke_def FATMASK_def)

lemma big_find: "AllocateCluster_find big_fs = Ret (True, 523765)"
  by (simp add: AllocateCluster_find_def big_start rbind_def Let_def)

lemma big_last: "chain_last big_fs 2 = Some (Ret 2)"
  by (subst chain_last.simps) (simp add: big_start FATEND_def)

lemma big_chain: "is_chain big_fs [2]"
  by (simp add: valid_clus_def big_fields big_cluster big_start FATEND_def)

lemma big_allocate:
  "AllocateCluster big_fs 2 = Some (Ret (big_fs\<lparr>mFilesys := big_after\<rparr>, 523765))"
proof -
  define m1 where "m1 = WriteItem (WriteItem big_mem 16392 4 (523765 :: 32 word))
                          2166792 4 (523765 :: 32 word)"
  define m2 where "m2 = WriteItem (WriteItem m1 2111444 4 (0x0FFFFFFF :: 32 word))
                          4261844 4 (0x0FFFFFFF :: 32 word)"
  define m3 where "m3 = WriteItem m2 1004 4 (523765 :: 32 word)"
  define m4 where "m4 = WriteItem m3 1000 4 (536971 :: 32 word)"
  have v: "(523765 :: 32 word) AND FATMASK = 523765" "(0xFFFFFFFF :: 32 word) AND FATMASK = 0x0FFFFFFF"
    by (simp_all add: FATMASK_def)
  have s1: "SetNextClus big_fs 2 523765 = Some (Ret (big_fs\<lparr>mFilesys := m1\<rparr>))"
    by (simp add: big_set(1) big_fields v m1_def)
  have s2: "SetNextClus (big_fs\<lparr>mFilesys := m1\<rparr>) 523765 0xFFFFFFFF
              = Some (Ret (big_fs\<lparr>mFilesys := m2\<rparr>))"
    by (simp add: big_set(2) big_fields v m2_def)
  have s3: "SetFATNxtFree (big_fs\<lparr>mFilesys := m2\<rparr>) 523765 = Ret (big_fs\<lparr>mFilesys := m3\<rparr>)"
    by (simp add: SetFATNxtFree_def big_fields big_info_pos WriteValue1_eq out_of_range_def m3_def)
  have c3: "(ReadItem m3 1000 4 :: 32 word) = 536972"
    by (simp add: ReadItem_4 m3_def m2_def m1_def WriteItem_apply big_mem_def poke_def)
  have s4: "UpdateClusCount (big_fs\<lparr>mFilesys := m3\<rparr>) (\<lambda>v. v - 1) = Ret (big_fs\<lparr>mFilesys := m4\<rparr>)"
    by (simp add: UpdateClusCount_def GetNFreeClus_def SetNFreeClus_def big_fields big_info_pos
          ReadValue1_eq WriteValue1_eq out_of_range_def rbind_def c3 m4_def)
  have p: "clus_pos (big_fs\<lparr>mFilesys := m4\<rparr>) 523765 = 16384"
    "clus_size (big_fs\<lparr>mFilesys := m4\<rparr>) = 8192"
    by (simp_all add: clus_pos_def clus_size_def big_fields big_cluster)
  have s5: "ZeroOutCluster (big_fs\<lparr>mFilesys := m4\<rparr>) 523765
              = Ret (big_fs\<lparr>mFilesys := big_after\<rparr>)"
  proof -
    have "ZeroOutCluster (big_fs\<lparr>mFilesys := m4\<rparr>) 523765
       = Ret (big_fs\<lparr>mFilesys := m4\<rparr>\<lparr>mFilesys :=
            (\<lambda>a. if clus_pos (big_fs\<lparr>mFilesys := m4\<rparr>) 523765 \<le> a
                     \<and> a < clus_pos (big_fs\<lparr>mFilesys := m4\<rparr>) 523765
                           + clus_size (big_fs\<lparr>mFilesys := m4\<rparr>)
                  then 0 else mFilesys (big_fs\<lparr>mFilesys := m4\<rparr>) a)\<rparr>)"
      by (rule ZeroOutCluster_eq) (simp_all add: p big_fields)
    moreover have "(\<lambda>a. if 16384 \<le> a \<and> a < 24576 then 0
                          else mFilesys (big_fs\<lparr>mFilesys := m4\<rparr>) a)
                 = (\<lambda>a. if 16384 \<le> a \<and> a < 24576 then 0 else m4 a)"
      by (rule ext) simp
    ultimately have "ZeroOutCluster (big_fs\<lparr>mFilesys := m4\<rparr>) 523765
       = Ret (big_fs\<lparr>mFilesys := (\<lambda>a. if 16384 \<le> a \<and> a < 24576 then 0 else m4 a)\<rparr>)"
      by (simp add: p)
    moreover have "(\<lambda>a. if 16384 \<le> a \<and> a < 24576 then 0 else m4 a) = big_after"
      unfolding big_after_def m4_def m3_def m2_def m1_def by (rule refl)
    ultimately show ?thesis by simp
  qed
  show ?thesis
    by (simp add: AllocateCluster_def big_find big_last s1 s2 s3 s4 s5 rbind_def)
qed

lemma big_after_facts:
  "big_after 4294983680 = 0x5A"
  "GetNextClus (big_fs\<lparr>mFilesys := big_after\<rparr>) 2 = Ret 0"
  "GetNextClus (big_fs\<lparr>mFilesys := big_after\<rparr>) 523765 = Ret 0x0FFFFFFF"
  "GetFATNxtFree (big_fs\<lparr>mFilesys := big_after\<rparr>) = Ret 523765"
  "GetNFreeClus (big_fs\<lparr>mFilesys := big_after\<rparr>) = Ret 536971"
  by (simp_all add: big_next big_fields GetFATNxtFree_def GetNFreeClus_def big_info_pos
        ReadValue1_eq out_of_range_def ReadItem_4 big_after_def WriteItem_apply big_mem_def
        poke_def FATMASK_def)

lemma big_wiped: "big_mem 16384 = 0xF8" "big_after 16384 = 0"
  by (simp_all add: big_mem_def big_after_def poke_def)

lemma big_true_pos:
  "unat (BytesPerSec big_info) * unat (GetFirstSectorOfClus big_info 523765) = 4294983680"
  "clus_pos big_fs 523765 = 16384" "clus_size big_fs = 8192"
  by (simp_all add: big_fields clus_pos_def clus_size_def big_cluster)
     (simp_all add: big_info_def GetFirstSectorOfClus_def)

text \<open>
  Claim C2. The claim says that after \<^verbatim>\<open>AllocateCluster(chain)\<close> has returned the new
  cluster \<open>c\<close>, following \<open>chain\<close> reaches \<open>c\<close>, the entry of \<open>c\<close> is an end-of-chain
  mark, every data byte of \<open>c\<close> is 0, the hint is \<open>c\<close> and the count is one less.
  \<^verbatim>\<open>ZeroOutCluster\<close> computes the byte position of the cluster in \<^verbatim>\<open>uint32_t\<close>. On the
  volume of more than 4 GiB, which \<^verbatim>\<open>Validate\<close> mounts, \<^verbatim>\<open>AllocateCluster(2)\<close> on the
  chain of the root directory returns the cluster 523765. Its data is at byte
  4294983680, inside the image; the position computed is 16384, the first byte of the
  first FAT. The data byte \<open>0x5A\<close> of the cluster is still there, and the first 2048
  entries of the first FAT have been zeroed, the one of cluster 2 among them: the next
  cluster of 2 now reads 0, so the chain from 2 no longer reaches 523765. The entry of
  523765, the hint and the count are as claimed.
\<close>

theorem C2_zeroed_bytes_wrap:
  "Validate big_image = Ret big_fs
   \<and> is_chain big_fs [2]
   \<and> GetNFreeClus big_fs = Ret 536972
   \<and> AllocateCluster big_fs 2 = Some (Ret (big_fs\<lparr>mFilesys := big_after\<rparr>, 523765))
   \<and> unat (BytesPerSec (finfo big_fs)) * unat (GetFirstSectorOfClus (finfo big_fs) 523765)
        = 4294983680
   \<and> 4294983680 + clus_size big_fs < filesys_size big_fs
   \<and> mFilesys (big_fs\<lparr>mFilesys := big_after\<rparr>) 4294983680 = 0x5A
   \<and> clus_pos big_fs 523765 = 16384
   \<and> mFilesys big_fs 16384 = 0xF8
   \<and> mFilesys (big_fs\<lparr>mFilesys := big_after\<rparr>) 16384 = 0
   \<and> GetNextClus (big_fs\<lparr>mFilesys := big_after\<rparr>) 2 = Ret 0
   \<and> GetNextClus (big_fs\<lparr>mFilesys := big_after\<rparr>) 523765 = Ret 0x0FFFFFFF
   \<and> GetFATNxtFree (big_fs\<lparr>mFilesys := big_after\<rparr>) = Ret 523765
   \<and> GetNFreeClus (big_fs\<lparr>mFilesys := big_after\<rparr>) = Ret 536971"
  by (simp add: big_mounts big_chain big_start big_allocate big_true_pos big_after_facts
        big_wiped big_fields del: is_chain.simps)

text \<open>
  The same run read from the theorem: the volume is mounted, and the allocation on the
  chain of its root directory returns cluster 523765 with its data byte untouched.
\<close>

theorem C2_zeroed_bytes_wrap_witness:
  "Validate big_image = Ret big_fs
   \<and> AllocateCluster big_fs 2 = Some (Ret (big_fs\<lparr>mFilesys := big_after\<rparr>, 523765))
   \<and> mFilesys (big_fs\<lparr>mFilesys := big_after\<rparr>) 4294983680 = 0x5A"
  using C2_zeroed_bytes_wrap by simp


end
